theory Spec2Isabelle
  imports Main "HOL-Library.AList"
begin

section \<open>The relational store (database.py)\<close>

text \<open>
  Ids are Python integers. A timestamp is a reading of a clock, taken as an integer;
  the database clock (\<open>func.now()\<close>) and the application clock
  (\<open>datetime.utcnow()\<close>) are separate inputs of every operation that reads them.
  A table is the list of its rows in insertion order; a serial primary key is drawn
  from a sequence stored beside the tables.

  A query without \<open>ORDER BY\<close> returns its rows in an order that the backend chooses. For
  the one query whose order reaches a response, the load of \<open>Poll.options\<close>, the store
  carries that choice: \<open>scan_rank\<close> gives each row of \<open>poll_options\<close> the position at
  which the backend's scan yields it, and rows of equal rank come in table order. Every
  order of the rows is the scan of some rank. The other queries are read through
  \<open>len\<close>, \<open>in\<close> or a key that is unique, where the order does not show.
\<close>

type_synonym timestamp = int

record user =
  u_id :: int
  u_name :: string
  u_email :: string
  u_password_hash :: string
  u_created_at :: timestamp

record poll =
  p_id :: int
  p_question :: string
  p_is_published :: bool
  p_created_at :: timestamp
  p_updated_at :: timestamp
  p_creator_id :: int

record poll_option =
  o_id :: int
  o_text :: string
  o_poll_id :: int
  o_created_at :: timestamp

text \<open>A row of the table \<open>votes\<close> (\<open>user_poll_option_votes\<close>).\<close>

record vote_row =
  v_id :: int
  v_user_id :: int
  v_poll_option_id :: int
  v_created_at :: timestamp

record database =
  users :: "user list"
  polls :: "poll list"
  poll_options :: "poll_option list"
  votes :: "vote_row list"
  users_seq :: int
  polls_seq :: int
  poll_options_seq :: int
  votes_seq :: int
  scan_rank :: "poll_option \<Rightarrow> nat"

text \<open>The relationships of the models, each a join over the tables.\<close>

definition poll_of :: "database \<Rightarrow> poll_option \<Rightarrow> poll option" where
  \<comment> \<open>\<open>PollOption.poll\<close>\<close>
  "poll_of d opt = find (\<lambda>p. p_id p = o_poll_id opt) (polls d)"

definition options :: "database \<Rightarrow> poll \<Rightarrow> poll_option list" where
  \<comment> \<open>\<open>Poll.options\<close>, declared without \<open>order_by\<close>: the rows as the backend's scan yields them\<close>
  "options d p = sort_key (scan_rank d) (filter (\<lambda>opt. o_poll_id opt = p_id p) (poll_options d))"

definition voters :: "database \<Rightarrow> poll_option \<Rightarrow> user list" where
  \<comment> \<open>\<open>PollOption.voters\<close>, through the table \<open>votes\<close>\<close>
  "voters d opt =
     concat (map (\<lambda>v. filter (\<lambda>u. u_id u = v_user_id v) (users d))
                 (filter (\<lambda>v. v_poll_option_id v = o_id opt) (votes d)))"

definition voted_options :: "database \<Rightarrow> user \<Rightarrow> poll_option list" where
  \<comment> \<open>\<open>User.voted_options\<close>, through the table \<open>votes\<close>\<close>
  "voted_options d u =
     concat (map (\<lambda>v. filter (\<lambda>opt. o_id opt = v_poll_option_id v) (poll_options d))
                 (filter (\<lambda>v. v_user_id v = u_id u) (votes d)))"

definition insert_vote :: "int \<Rightarrow> int \<Rightarrow> timestamp \<Rightarrow> database \<Rightarrow> database" where
  \<comment> \<open>the INSERT that \<open>user.voted_options.append(poll_option)\<close> and the commit issue\<close>
  "insert_vote user_id option_id now d =
     d\<lparr>votes := votes d @ [\<lparr>v_id = votes_seq d, v_user_id = user_id,
                               v_poll_option_id = option_id, v_created_at = now\<rparr>],
       votes_seq := votes_seq d + 1\<rparr>"

section \<open>Request and response shapes (schemas.py)\<close>

record user_create =
  uc_name :: string
  uc_email :: string
  uc_password :: string

record poll_option_create =
  poc_text :: string

record poll_option_response =
  por_id :: int
  por_text :: string
  por_vote_count :: int

record poll_create =
  pc_question :: string
  pc_options :: "poll_option_create list"
  pc_is_published :: bool

record poll_response =
  pr_id :: int
  pr_question :: string
  pr_is_published :: bool
  pr_created_at :: timestamp
  pr_updated_at :: timestamp
  pr_creator_id :: int
  pr_options :: "poll_option_response list"

record vote_create =
  vc_poll_option_id :: int

record vote_response =
  vr_user_id :: int
  vr_poll_option_id :: int
  vr_created_at :: timestamp

datatype error = HTTPException int string | ValueError | AttributeError | KeyError

text \<open>
  What \<open>poll_data.dict()\<close> returns and \<open>json.dumps\<close> is given: Python values. The two
  timestamps of a \<open>PollResponse\<close> stay \<open>datetime\<close> objects in the dictionary, and
  \<open>json.dumps\<close> raises \<open>TypeError\<close> on a value that holds one.
\<close>

datatype pyvalue =
    PyInt int
  | PyStr string
  | PyBool bool
  | PyDatetime timestamp
  | PyList "pyvalue list"
  | PyDict "(string \<times> pyvalue) list"

fun json_serializable :: "pyvalue \<Rightarrow> bool" where
  "json_serializable (PyDatetime t) = False"
| "json_serializable (PyList xs) = (\<forall>x\<in>set xs. json_serializable x)"
| "json_serializable (PyDict kvs) = (\<forall>kv\<in>set kvs. json_serializable (snd kv))"
| "json_serializable (PyInt n) = True"
| "json_serializable (PyStr t) = True"
| "json_serializable (PyBool b) = True"

definition option_dict :: "poll_option_response \<Rightarrow> pyvalue" where
  "option_dict r = PyDict [(''id'', PyInt (por_id r)), (''text'', PyStr (por_text r)),
                           (''vote_count'', PyInt (por_vote_count r))]"

definition poll_dict :: "poll_response \<Rightarrow> pyvalue" where
  \<comment> \<open>\<open>PollResponse.dict()\<close>\<close>
  "poll_dict r =
     PyDict [(''id'', PyInt (pr_id r)), (''question'', PyStr (pr_question r)),
             (''is_published'', PyBool (pr_is_published r)),
             (''created_at'', PyDatetime (pr_created_at r)),
             (''updated_at'', PyDatetime (pr_updated_at r)),
             (''creator_id'', PyInt (pr_creator_id r)),
             (''options'', PyList (map option_dict (pr_options r)))]"

definition frame :: "string \<Rightarrow> poll_response \<Rightarrow> pyvalue" where
  \<comment> \<open>\<open>{"type": t, "poll": poll_data.dict()}\<close>\<close>
  "frame t poll_data = PyDict [(''type'', PyStr t), (''poll'', poll_dict poll_data)]"

section \<open>The connection manager (websocket.py)\<close>

text \<open>
  A websocket is a handle. The dictionary \<open>poll_subscribers\<close> is an association
  list in insertion order; its lists are changed in place and a key is never removed, so
  the list under a key is one object throughout.

  \<open>await connection.send_text(json.dumps(data))\<close> first serializes. When that raises,
  the coroutine has not been suspended. When it returns, the coroutine is suspended in
  \<open>send_text\<close>; whether the send then completes is decided outside the program (the
  predicate \<open>ok\<close>), and while the coroutine is suspended other coroutines run and call the
  manager. Every attempt is recorded on the wire.
\<close>

type_synonym websocket = nat

datatype event = Sent websocket pyvalue | SendFailed websocket pyvalue

record connection_manager =
  active_connections :: "websocket list"
  poll_subscribers :: "(int \<times> websocket list) list"

definition manager_init :: connection_manager where
  "manager_init = \<lparr>active_connections = [], poll_subscribers = []\<rparr>"

definition subscribers :: "connection_manager \<Rightarrow> int \<Rightarrow> websocket list option" where
  \<comment> \<open>\<open>self.poll_subscribers[poll_id]\<close>, \<open>None\<close> when the key is absent\<close>
  "subscribers m poll_id = map_of (poll_subscribers m) poll_id"

definition connect :: "websocket \<Rightarrow> connection_manager \<Rightarrow> connection_manager" where
  \<comment> \<open>\<open>websocket.accept()\<close> is taken to succeed\<close>
  "connect ws m = m\<lparr>active_connections := active_connections m @ [ws]\<rparr>"

definition remove_if_in :: "'a \<Rightarrow> 'a list \<Rightarrow> 'a list" where
  \<comment> \<open>\<open>if x in xs: xs.remove(x)\<close>\<close>
  "remove_if_in x xs = (if x \<in> set xs then remove1 x xs else xs)"

definition disconnect :: "websocket \<Rightarrow> connection_manager \<Rightarrow> connection_manager" where
  "disconnect ws m =
     m\<lparr>active_connections := remove_if_in ws (active_connections m),
       poll_subscribers :=
         map (\<lambda>(poll_id, connections). (poll_id, remove_if_in ws connections))
             (poll_subscribers m)\<rparr>"

definition subscribe_to_poll :: "int \<Rightarrow> websocket \<Rightarrow> connection_manager \<Rightarrow> connection_manager" where
  "subscribe_to_poll poll_id ws m =
     (let ps = (if poll_id \<notin> fst ` set (poll_subscribers m)
                then AList.update poll_id [] (poll_subscribers m)
                else poll_subscribers m)
      in case map_of ps poll_id of
           None \<Rightarrow> m\<lparr>poll_subscribers := ps\<rparr>
         | Some connections \<Rightarrow>
             if ws \<notin> set connections
             then m\<lparr>poll_subscribers := AList.update poll_id (connections @ [ws]) ps\<rparr>
             else m\<lparr>poll_subscribers := ps\<rparr>)"

text \<open>
  What another coroutine does to the manager while a broadcast is suspended in a send: one
  of the manager's three methods, or the removal that another broadcast's cleanup makes
  in the list of a poll.
\<close>

datatype registry_call =
    Connects websocket
  | Subscribes int websocket
  | Disconnects websocket
  | Removes int websocket

fun registry_step :: "registry_call \<Rightarrow> connection_manager \<Rightarrow> connection_manager" where
  "registry_step (Connects ws) m = connect ws m"
| "registry_step (Subscribes poll_id ws) m = subscribe_to_poll poll_id ws m"
| "registry_step (Disconnects ws) m = disconnect ws m"
| "registry_step (Removes poll_id ws) m =
     (case map_of (poll_subscribers m) poll_id of
        None \<Rightarrow> m
      | Some connections \<Rightarrow>
          m\<lparr>poll_subscribers :=
              AList.update poll_id (remove_if_in ws connections) (poll_subscribers m)\<rparr>)"

text \<open>
  The first loop of \<open>broadcast_poll_update\<close>. Python's \<open>for\<close> over a list reads the
  list by position, one position further at each turn, and stops when the position is
  no longer in the list as it is then. \<open>sched\<close> lists, for each suspension in turn, the
  calls that other coroutines make during it; past its end nothing else runs.
\<close>

function send_loop :: "int \<Rightarrow> pyvalue \<Rightarrow> (websocket \<Rightarrow> bool) \<Rightarrow> registry_call list list \<Rightarrow> nat
    \<Rightarrow> websocket list \<times> connection_manager \<times> event list
    \<Rightarrow> websocket list \<times> connection_manager \<times> event list" where
  "send_loop poll_id data ok sched i (disconnected, m, wire) =
     (case map_of (poll_subscribers m) poll_id of
        None \<Rightarrow> (disconnected, m, wire)
      | Some connections \<Rightarrow>
          if i < length connections
          then (if json_serializable data
                then send_loop poll_id data ok (tl sched) (Suc i)
                       (if ok (connections ! i) then disconnected
                        else disconnected @ [connections ! i],
                        fold registry_step (case sched of [] \<Rightarrow> [] | calls # later \<Rightarrow> calls) m,
                        wire @ [if ok (connections ! i) then Sent (connections ! i) data
                                else SendFailed (connections ! i) data])
                else send_loop poll_id data ok sched (Suc i)
                       (disconnected @ [connections ! i], m,
                        wire @ [SendFailed (connections ! i) data]))
          else (disconnected, m, wire))"
  by pat_completeness auto
termination
proof (relation "inv_image (less_than <*lex*> less_than)
    (\<lambda>(poll_id, data, ok, sched, i, disconnected, m, wire).
       (length sched,
        length (case map_of (poll_subscribers m) poll_id of None \<Rightarrow> [] | Some cs \<Rightarrow> cs) - i))",
    goal_cases)
  case 1
  show ?case by (intro wf_inv_image wf_lex_prod wf_less_than)
next
  case (2 poll_id data ok sched i disconnected m wire connections)
  then show ?case by (cases sched) auto
next
  case (3 poll_id data ok sched i disconnected m wire connections)
  then show ?case by auto
qed

declare send_loop.simps [simp del]

text \<open>
  The second loop: \<open>list.remove\<close> raises \<open>ValueError\<close> when the element is absent,
  and the list keeps what was removed until then.
\<close>

fun cleanup :: "websocket list \<Rightarrow> websocket list \<Rightarrow> (error + unit) \<times> websocket list" where
  "cleanup [] connections = (Inr (), connections)"
| "cleanup (conn # rest) connections =
     (if conn \<in> set connections then cleanup rest (remove1 conn connections)
      else (Inl ValueError, connections))"

definition broadcast_poll_update :: "int \<Rightarrow> pyvalue \<Rightarrow> (websocket \<Rightarrow> bool) \<Rightarrow> registry_call list list
    \<Rightarrow> connection_manager \<times> event list \<Rightarrow> (error + unit) \<times> connection_manager \<times> event list" where
  "broadcast_poll_update poll_id data ok sched mw =
     (case mw of (m, wire) \<Rightarrow>
      (case map_of (poll_subscribers m) poll_id of
         None \<Rightarrow> (Inr (), m, wire)
       | Some subscribed \<Rightarrow>
           (case send_loop poll_id data ok sched 0 ([], m, wire) of (disconnected, m1, wire1) \<Rightarrow>
            (case map_of (poll_subscribers m1) poll_id of
               None \<Rightarrow> (if disconnected = [] then Inr () else Inl KeyError, m1, wire1)
             | Some connections \<Rightarrow>
                 (case cleanup disconnected connections of (r, connections') \<Rightarrow>
                    (r, m1\<lparr>poll_subscribers :=
                             AList.update poll_id connections' (poll_subscribers m1)\<rparr>,
                     wire1))))))"

section \<open>The request handlers (main.py)\<close>

record system =
  db :: database
  manager :: connection_manager
  wire :: "event list"

text \<open>
  What a handler takes from outside: the two clocks, which sends complete, and what other
  coroutines do to the manager during the suspensions of the handler's broadcast.
\<close>

record env =
  now_db :: timestamp
  now_utc :: timestamp
  send_ok :: "websocket \<Rightarrow> bool"
  during_send :: "registry_call list list"

definition get_poll_with_votes :: "int \<Rightarrow> database \<Rightarrow> error + poll_response" where
  "get_poll_with_votes poll_id d =
     (case find (\<lambda>p. p_id p = poll_id) (polls d) of
        None \<Rightarrow> Inl (HTTPException 404 ''Poll not found'')
      | Some p \<Rightarrow>
          Inr \<lparr>pr_id = p_id p, pr_question = p_question p,
               pr_is_published = p_is_published p, pr_created_at = p_created_at p,
               pr_updated_at = p_updated_at p, pr_creator_id = p_creator_id p,
               pr_options =
                 map (\<lambda>opt. \<lparr>por_id = o_id opt, por_text = o_text opt,
                              por_vote_count = int (length (voters d opt))\<rparr>)
                     (options d p)\<rparr>)"

definition cast_vote :: "vote_create \<Rightarrow> int \<Rightarrow> env \<Rightarrow> system \<Rightarrow> (error + vote_response) \<times> system" where
  "cast_vote vote user_id e s =
     (case find (\<lambda>u. u_id u = user_id) (users (db s)) of
        None \<Rightarrow> (Inl (HTTPException 404 ''User not found''), s)
      | Some usr \<Rightarrow>
     (case find (\<lambda>opt. o_id opt = vc_poll_option_id vote) (poll_options (db s)) of
        None \<Rightarrow> (Inl (HTTPException 404 ''Poll option not found''), s)
      | Some poll_option \<Rightarrow>
     (let existing_votes = filter (\<lambda>v. v_user_id v = user_id) (votes (db s)) in
      case poll_of (db s) poll_option of
        None \<Rightarrow> (Inl AttributeError, s)
      | Some p \<Rightarrow>
     (let poll_option_ids_for_poll = map o_id (options (db s) p) in
      if list_ex (\<lambda>existing_vote. v_poll_option_id existing_vote \<in> set poll_option_ids_for_poll)
                 existing_votes
      then (Inl (HTTPException 400 ''User has already voted for this poll''), s)
      else
       (let s1 = (if poll_option \<notin> set (voted_options (db s) usr)
                  then s\<lparr>db := insert_vote user_id (o_id poll_option) (now_db e) (db s)\<rparr>
                  else s)
        in case get_poll_with_votes (o_poll_id poll_option) (db s1) of
             Inl err \<Rightarrow> (Inl err, s1)
           | Inr poll_data \<Rightarrow>
              (case broadcast_poll_update (o_poll_id poll_option)
                      (frame ''poll_update'' poll_data)
                      (send_ok e) (during_send e) (manager s1, wire s1) of
                 (r, m', wire') \<Rightarrow>
                   (case r of
                      Inl err \<Rightarrow> (Inl err, s1\<lparr>manager := m', wire := wire'\<rparr>)
                    | Inr _ \<Rightarrow>
                        (Inr \<lparr>vr_user_id = user_id,
                              vr_poll_option_id = vc_poll_option_id vote,
                              vr_created_at = now_utc e\<rparr>,
                         s1\<lparr>manager := m', wire := wire'\<rparr>))))))))"

definition create_user :: "user_create \<Rightarrow> string \<Rightarrow> timestamp \<Rightarrow> database \<Rightarrow> (error + user) \<times> database" where
  \<comment> \<open>\<open>hashed_password\<close> is what \<open>hash_password(user.password)\<close> returned\<close>
  "create_user usr hashed_password now d =
     (case find (\<lambda>u. u_email u = uc_email usr) (users d) of
        Some existing_user \<Rightarrow> (Inl (HTTPException 400 ''Email already registered''), d)
      | None \<Rightarrow>
          (let db_user = \<lparr>u_id = users_seq d, u_name = uc_name usr, u_email = uc_email usr,
                          u_password_hash = hashed_password, u_created_at = now\<rparr>
           in (Inr db_user, d\<lparr>users := users d @ [db_user], users_seq := users_seq d + 1\<rparr>)))"

text \<open>The loop of \<open>create_poll\<close> over \<open>poll.options\<close>, committed as one transaction.\<close>

fun add_options :: "poll_option_create list \<Rightarrow> int \<Rightarrow> timestamp \<Rightarrow> database \<Rightarrow> database" where
  "add_options [] poll_id now d = d"
| "add_options (option_data # rest) poll_id now d =
     add_options rest poll_id now
       (d\<lparr>poll_options := poll_options d @
             [\<lparr>o_id = poll_options_seq d, o_text = poc_text option_data,
               o_poll_id = poll_id, o_created_at = now\<rparr>],
          poll_options_seq := poll_options_seq d + 1\<rparr>)"

definition create_poll :: "poll_create \<Rightarrow> int \<Rightarrow> timestamp \<Rightarrow> timestamp \<Rightarrow> database
    \<Rightarrow> (error + poll_response) \<times> database" where
  \<comment> \<open>\<open>now\<close> and \<open>now'\<close> are the database clock at the first and at the second commit\<close>
  "create_poll pc creator_id now now' d =
     (case find (\<lambda>u. u_id u = creator_id) (users d) of
        None \<Rightarrow> (Inl (HTTPException 404 ''Creator not found''), d)
      | Some creator \<Rightarrow>
          (let db_poll = \<lparr>p_id = polls_seq d, p_question = pc_question pc,
                          p_is_published = pc_is_published pc, p_created_at = now,
                          p_updated_at = now, p_creator_id = creator_id\<rparr>;
               d1 = d\<lparr>polls := polls d @ [db_poll], polls_seq := polls_seq d + 1\<rparr>;
               d2 = add_options (pc_options pc) (p_id db_poll) now' d1
           in (get_poll_with_votes (p_id db_poll) d2, d2)))"

text \<open>
  \<open>websocket_endpoint\<close> up to its keep-alive loop. The loop only waits for frames; when
  it ends, the handler calls \<open>disconnect\<close>, which is an operation of its own below.
  \<open>TypeError\<close> from \<open>json.dumps\<close>, the \<open>HTTPException\<close> for a missing poll and a
  failed send all end in the handler's \<open>except\<close> branches, which disconnect.
\<close>

definition websocket_endpoint :: "websocket \<Rightarrow> int \<Rightarrow> env \<Rightarrow> system \<Rightarrow> system" where
  "websocket_endpoint ws poll_id e s =
     (let s1 = s\<lparr>manager := subscribe_to_poll poll_id ws (connect ws (manager s))\<rparr>
      in case get_poll_with_votes poll_id (db s1) of
           Inl err \<Rightarrow> s1\<lparr>manager := disconnect ws (manager s1)\<rparr>
         | Inr poll_data \<Rightarrow>
             (let data = frame ''initial_data'' poll_data
              in if json_serializable data \<and> send_ok e ws
                 then s1\<lparr>wire := wire s1 @ [Sent ws data]\<rparr>
                 else s1\<lparr>manager := disconnect ws (manager s1),
                         wire := wire s1 @ [SendFailed ws data]\<rparr>))"

section \<open>Runs of the system\<close>

datatype operation =
    CastVote vote_create int env
  | CreatePoll poll_create int timestamp timestamp
  | CreateUser user_create string timestamp
  | BuildSnapshot int
  | Subscribe int websocket
  | Connect websocket
  | Disconnect websocket
  | WebsocketEndpoint websocket int env

fun step :: "operation \<Rightarrow> system \<Rightarrow> system" where
  "step (CastVote vote user_id e) s = snd (cast_vote vote user_id e s)"
| "step (CreatePoll pc creator_id now now') s = s\<lparr>db := snd (create_poll pc creator_id now now' (db s))\<rparr>"
| "step (CreateUser usr hashed_password now) s = s\<lparr>db := snd (create_user usr hashed_password now (db s))\<rparr>"
| "step (BuildSnapshot poll_id) s = (case get_poll_with_votes poll_id (db s) of Inl err \<Rightarrow> s | Inr snapshot \<Rightarrow> s)"
| "step (Subscribe poll_id ws) s = s\<lparr>manager := subscribe_to_poll poll_id ws (manager s)\<rparr>"
| "step (Connect ws) s = s\<lparr>manager := connect ws (manager s)\<rparr>"
| "step (Disconnect ws) s = s\<lparr>manager := disconnect ws (manager s)\<rparr>"
| "step (WebsocketEndpoint ws poll_id e) s = websocket_endpoint ws poll_id e s"

definition run :: "operation list \<Rightarrow> system \<Rightarrow> system" where
  "run ops s = fold step ops s"

text \<open>Votes of several users for one option, one request after the other; the first rejected request ends the run.\<close>

fun cast_votes :: "vote_create \<Rightarrow> (int \<times> env) list \<Rightarrow> system \<Rightarrow> system option" where
  "cast_votes vote [] s = Some s"
| "cast_votes vote ((user_id, e) # rest) s =
     (case cast_vote vote user_id e s of
        (Inl err, s') \<Rightarrow> None
      | (Inr response, s') \<Rightarrow> cast_votes vote rest s')"

definition is_handler :: "operation \<Rightarrow> bool" where
  \<comment> \<open>every operation but the bare call of \<open>subscribe_to_poll\<close>\<close>
  "is_handler op = (case op of Subscribe poll_id ws \<Rightarrow> False | _ \<Rightarrow> True)"

section \<open>Invariants\<close>

text \<open>
  What the schema and the sequences guarantee: primary keys are unique and below their
  sequence, and every foreign key refers to a row.
\<close>

definition wf :: "database \<Rightarrow> bool" where
  "wf d \<longleftrightarrow>
     distinct (map u_id (users d)) \<and> distinct (map p_id (polls d)) \<and>
     distinct (map o_id (poll_options d)) \<and> distinct (map v_id (votes d)) \<and>
     (\<forall>u\<in>set (users d). u_id u < users_seq d) \<and>
     (\<forall>p\<in>set (polls d). p_id p < polls_seq d) \<and>
     (\<forall>opt\<in>set (poll_options d). o_id opt < poll_options_seq d) \<and>
     (\<forall>v\<in>set (votes d). v_id v < votes_seq d) \<and>
     (\<forall>opt\<in>set (poll_options d). o_poll_id opt \<in> p_id ` set (polls d)) \<and>
     (\<forall>v\<in>set (votes d). v_user_id v \<in> u_id ` set (users d) \<and>
                          v_poll_option_id v \<in> o_id ` set (poll_options d))"

text \<open>I1: no user has voted for two options of one poll.\<close>

definition I1 :: "database \<Rightarrow> bool" where
  "I1 d \<longleftrightarrow>
     (\<forall>u\<in>set (users d). \<forall>o1\<in>set (voted_options d u). \<forall>o2\<in>set (voted_options d u).
        o_poll_id o1 = o_poll_id o2 \<longrightarrow> o1 = o2)"

definition no_duplicate_votes :: "database \<Rightarrow> bool" where
  "no_duplicate_votes d \<longleftrightarrow> distinct (map (\<lambda>v. (v_user_id v, v_poll_option_id v)) (votes d))"

text \<open>The spec's count: the users that hold a stored vote for an option.\<close>

definition distinct_voters :: "database \<Rightarrow> int \<Rightarrow> int set" where
  "distinct_voters d option_id = v_user_id ` {v \<in> set (votes d). v_poll_option_id v = option_id}"

definition has_voted_in :: "database \<Rightarrow> int \<Rightarrow> int \<Rightarrow> bool" where
  \<comment> \<open>the user holds a vote for some option of the poll\<close>
  "has_voted_in d user_id poll_id \<longleftrightarrow>
     (\<exists>v\<in>set (votes d). \<exists>opt\<in>set (poll_options d).
        v_user_id v = user_id \<and> v_poll_option_id v = o_id opt \<and> o_poll_id opt = poll_id)"

text \<open>I3, read on the registry: every observer in a subscriber list listens to a poll of the store.\<close>

definition subscriptions_valid :: "system \<Rightarrow> bool" where
  "subscriptions_valid s \<longleftrightarrow>
     (\<forall>(poll_id, connections)\<in>set (poll_subscribers (manager s)).
        \<forall>ws\<in>set connections. poll_id \<in> p_id ` set (polls (db s)))"

text \<open>
  The backend yields the rows of \<open>poll_options\<close> in the order of insertion; and the ids
  of the rows, drawn from the sequence, ascend in that order.
\<close>

definition scans_in_insertion_order :: "database \<Rightarrow> bool" where
  "scans_in_insertion_order d \<longleftrightarrow> sorted (map (scan_rank d) (poll_options d))"

definition ids_ascending :: "database \<Rightarrow> bool" where
  "ids_ascending d \<longleftrightarrow> sorted_wrt (<) (map o_id (poll_options d))"

text \<open>Adding \<open>k\<close> to the vote count of one option in a snapshot's list.\<close>

definition bump :: "int \<Rightarrow> int \<Rightarrow> poll_option_response \<Rightarrow> poll_option_response" where
  "bump option_id k r = (if por_id r = option_id then r\<lparr>por_vote_count := por_vote_count r + k\<rparr> else r)"

section \<open>Sample states\<close>

definition table_order :: "poll_option \<Rightarrow> nat" where
  \<comment> \<open>a backend that yields rows as they were inserted\<close>
  "table_order opt = 0"

definition newest_first :: "poll_option \<Rightarrow> nat" where
  \<comment> \<open>a backend that yields the rows with ids up to 100 from the highest id down\<close>
  "newest_first opt = nat (100 - o_id opt)"

definition init_db :: database where
  "init_db = \<lparr>users = [], polls = [], poll_options = [], votes = [],
              users_seq = 1, polls_seq = 1, poll_options_seq = 1, votes_seq = 1,
              scan_rank = table_order\<rparr>"

definition init_system :: system where
  "init_system = \<lparr>db = init_db, manager = manager_init, wire = []\<rparr>"

definition demo_db :: database where
  "demo_db =
     \<lparr>users = [\<lparr>u_id = 1, u_name = ''alice'', u_email = ''a@x.org'',
                 u_password_hash = ''h1'', u_created_at = 10\<rparr>,
               \<lparr>u_id = 2, u_name = ''bob'', u_email = ''b@x.org'',
                 u_password_hash = ''h2'', u_created_at = 11\<rparr>],
      polls = [\<lparr>p_id = 1, p_question = ''Language?'', p_is_published = True,
                 p_created_at = 20, p_updated_at = 20, p_creator_id = 1\<rparr>],
      poll_options = [\<lparr>o_id = 1, o_text = ''Python'', o_poll_id = 1, o_created_at = 21\<rparr>,
                      \<lparr>o_id = 2, o_text = ''Go'', o_poll_id = 1, o_created_at = 21\<rparr>],
      votes = [],
      users_seq = 3, polls_seq = 2, poll_options_seq = 3, votes_seq = 1,
      scan_rank = table_order\<rparr>"

definition reaches_first :: "websocket \<Rightarrow> bool" where
  "reaches_first ws = (ws = 0)"

definition demo_env :: env where
  "demo_env = \<lparr>now_db = 100, now_utc = 105, send_ok = reaches_first, during_send = []\<rparr>"

definition demo_manager :: connection_manager where
  "demo_manager = \<lparr>active_connections = [0, 1], poll_subscribers = [(1, [0, 1])]\<rparr>"

definition demo_system :: system where
  "demo_system = \<lparr>db = demo_db, manager = demo_manager, wire = []\<rparr>"

definition demo_vote :: vote_create where
  "demo_vote = \<lparr>vc_poll_option_id = 1\<rparr>"

definition voted_system :: system where
  \<comment> \<open>\<open>demo_system\<close> once user 1 has voted for option 1\<close>
  "voted_system =
     demo_system\<lparr>db := demo_db\<lparr>votes := [\<lparr>v_id = 1, v_user_id = 1, v_poll_option_id = 1,
                                             v_created_at = 100\<rparr>],
                                 votes_seq := 2\<rparr>\<rparr>"

definition other_vote :: vote_create where
  "other_vote = \<lparr>vc_poll_option_id = 2\<rparr>"

definition plain_update :: pyvalue where
  \<comment> \<open>a dictionary that \<open>json.dumps\<close> serializes\<close>
  "plain_update = PyDict [(''type'', PyStr ''poll_update''), (''poll'', PyInt 1)]"

definition reaches_all :: "websocket \<Rightarrow> bool" where
  "reaches_all ws = True"

definition late_manager :: connection_manager where
  \<comment> \<open>websocket 1 subscribed to poll 1 before websocket 0\<close>
  "late_manager = \<lparr>active_connections = [1, 0], poll_subscribers = [(1, [1, 0])]\<rparr>"

definition three_manager :: connection_manager where
  "three_manager = \<lparr>active_connections = [0, 1, 2], poll_subscribers = [(1, [0, 1, 2])]\<rparr>"

definition reversed_db :: database where
  \<comment> \<open>\<open>demo_db\<close> on a backend that scans from the newest row\<close>
  "reversed_db = demo_db\<lparr>scan_rank := newest_first\<rparr>"

definition demo_ops :: "operation list" where
  "demo_ops = [WebsocketEndpoint 0 1 demo_env, WebsocketEndpoint 2 7 demo_env,
               CastVote demo_vote 1 demo_env, CastVote other_vote 1 demo_env,
               CastVote other_vote 2 demo_env, Disconnect 0]"

definition demo_poll :: poll_create where
  "demo_poll = \<lparr>pc_question = ''Editor?'',
                pc_options = [\<lparr>poc_text = ''vi''\<rparr>, \<lparr>poc_text = ''emacs''\<rparr>, \<lparr>poc_text = ''ed''\<rparr>],
                pc_is_published = True\<rparr>"

definition stray_votes :: "vote_row list" where
  "stray_votes = [\<lparr>v_id = 1, v_user_id = 2, v_poll_option_id = 2, v_created_at = 30\<rparr>,
                  \<lparr>v_id = 2, v_user_id = 1, v_poll_option_id = 2, v_created_at = 31\<rparr>]"

definition demo_calls :: "(int \<times> env) list" where
  "demo_calls = [(1, demo_env), (2, demo_env)]"

lemmas demo_defs = init_db_def init_system_def manager_init_def demo_db_def demo_env_def
  demo_manager_def demo_system_def demo_vote_def voted_system_def reaches_first_def
  other_vote_def table_order_def newest_first_def plain_update_def reaches_all_def
  late_manager_def three_manager_def reversed_db_def

section \<open>The broadcast loops\<close>

lemma send_loop_done:
  "map_of (poll_subscribers m) poll_id = Some connections \<Longrightarrow> \<not> i < length connections \<Longrightarrow>
     send_loop poll_id data ok sched i (disconnected, m, w) = (disconnected, m, w)"
  by (subst send_loop.simps) simp

lemma send_loop_raise:
  "map_of (poll_subscribers m) poll_id = Some connections \<Longrightarrow> i < length connections \<Longrightarrow>
   \<not> json_serializable data \<Longrightarrow>
     send_loop poll_id data ok sched i (disconnected, m, w) =
     send_loop poll_id data ok sched (Suc i)
       (disconnected @ [connections ! i], m, w @ [SendFailed (connections ! i) data])"
  by (subst send_loop.simps) simp

lemma send_loop_await:
  "map_of (poll_subscribers m) poll_id = Some connections \<Longrightarrow> i < length connections \<Longrightarrow>
   json_serializable data \<Longrightarrow>
     send_loop poll_id data ok sched i (disconnected, m, w) =
     send_loop poll_id data ok (tl sched) (Suc i)
       (if ok (connections ! i) then disconnected else disconnected @ [connections ! i],
        fold registry_step (case sched of [] \<Rightarrow> [] | calls # later \<Rightarrow> calls) m,
        w @ [if ok (connections ! i) then Sent (connections ! i) data
                else SendFailed (connections ! i) data])"
  by (subst send_loop.simps) simp

lemma send_loop_unserializable:
  assumes "\<not> json_serializable data" and "map_of (poll_subscribers m) poll_id = Some connections"
  shows "send_loop poll_id data ok sched i (disconnected, m, w) =
           (disconnected @ drop i connections, m,
            w @ map (\<lambda>c. SendFailed c data) (drop i connections))"
proof (induction "length connections - i" arbitrary: i disconnected w)
  case 0
  then show ?case using assms by (simp add: send_loop_done)
next
  case (Suc n)
  then have i: "i < length connections" and n: "n = length connections - Suc i" by simp_all
  from Suc.hyps(1) [OF n] show ?case
    using assms i by (simp add: send_loop_raise Cons_nth_drop_Suc [symmetric])
qed

lemma cleanup_filter_gen:
  "\<forall>c\<in>set pre. \<not> P c \<Longrightarrow>
   cleanup (filter P xs) (pre @ xs) = (Inr (), pre @ filter (\<lambda>c. \<not> P c) xs)"
proof (induction xs arbitrary: pre)
  case Nil
  then show ?case by simp
next
  case (Cons a xs)
  show ?case
  proof (cases "P a")
    case True
    then have "a \<notin> set pre" using Cons.prems by auto
    then have "remove1 a (pre @ a # xs) = pre @ xs"
      by (simp add: remove1_append)
    with True Cons.IH [OF Cons.prems] show ?thesis by simp
  next
    case False
    then have "\<forall>c\<in>set (pre @ [a]). \<not> P c" using Cons.prems by auto
    from Cons.IH [OF this] False show ?thesis by simp
  qed
qed

lemma cleanup_filter:
  "cleanup (filter P xs) xs = (Inr (), filter (\<lambda>c. \<not> P c) xs)"
  using cleanup_filter_gen [of "[]" P xs] by simp

lemma cleanup_all: "cleanup xs xs = (Inr (), [])"
  using cleanup_filter [of "\<lambda>c. True" xs] by simp

lemma broadcast_unserializable:
  assumes "\<not> json_serializable data"
  shows "broadcast_poll_update poll_id data ok sched (m, w) =
     (case map_of (poll_subscribers m) poll_id of
        None \<Rightarrow> (Inr (), m, w)
      | Some conns \<Rightarrow>
          (Inr (), m\<lparr>poll_subscribers := AList.update poll_id [] (poll_subscribers m)\<rparr>,
           w @ map (\<lambda>c. SendFailed c data) conns))"
  by (simp add: broadcast_poll_update_def send_loop_unserializable [OF assms] cleanup_all
      split: option.splits)

lemma frame_not_serializable [simp]: "\<not> json_serializable (frame t poll_data)"
  by (simp add: frame_def poll_dict_def)

lemmas broadcast_frame = broadcast_unserializable [OF frame_not_serializable]

text \<open>Without other coroutines, a broadcast of a serializable dictionary.\<close>

lemma send_loop_alone:
  assumes "json_serializable data" and "map_of (poll_subscribers m) poll_id = Some connections"
  shows "send_loop poll_id data ok [] i (disconnected, m, w) =
           (disconnected @ filter (\<lambda>c. \<not> ok c) (drop i connections), m,
            w @ map (\<lambda>c. if ok c then Sent c data else SendFailed c data) (drop i connections))"
proof (induction "length connections - i" arbitrary: i disconnected w)
  case 0
  then show ?case using assms by (simp add: send_loop_done)
next
  case (Suc n)
  then have i: "i < length connections" and n: "n = length connections - Suc i" by simp_all
  from Suc.hyps(1) [OF n] show ?case
    using assms i by (simp add: send_loop_await Cons_nth_drop_Suc [symmetric])
qed

lemma broadcast_alone:
  assumes "json_serializable data"
  shows "broadcast_poll_update poll_id data ok [] (m, w) =
     (case map_of (poll_subscribers m) poll_id of
        None \<Rightarrow> (Inr (), m, w)
      | Some conns \<Rightarrow>
          (Inr (), m\<lparr>poll_subscribers := AList.update poll_id (filter ok conns) (poll_subscribers m)\<rparr>,
           w @ map (\<lambda>c. if ok c then Sent c data else SendFailed c data) conns))"
  by (simp add: broadcast_poll_update_def send_loop_alone [OF assms] cleanup_filter
      split: option.splits)

section \<open>Casting a vote\<close>

lemma insert_vote_simps [simp]:
  "polls (insert_vote u oid t d) = polls d"
  "users (insert_vote u oid t d) = users d"
  "poll_options (insert_vote u oid t d) = poll_options d"
  "votes (insert_vote u oid t d) =
     votes d @ [\<lparr>v_id = votes_seq d, v_user_id = u, v_poll_option_id = oid, v_created_at = t\<rparr>]"
  "scan_rank (insert_vote u oid t d) = scan_rank d"
  by (simp_all add: insert_vote_def)

lemma get_poll_with_votes_Inl:
  "get_poll_with_votes poll_id d = Inl err \<longleftrightarrow>
     find (\<lambda>p. p_id p = poll_id) (polls d) = None \<and> err = HTTPException 404 ''Poll not found''"
  by (auto simp add: get_poll_with_votes_def split: option.splits)

lemma cast_vote_Inl_unchanged:
  "cast_vote vote user_id e s = (Inl err, s') \<Longrightarrow> s' = s"
  by (auto simp add: cast_vote_def Let_def poll_of_def broadcast_frame get_poll_with_votes_Inl
      split: option.splits if_splits sum.splits prod.splits)

lemma cast_vote_duplicate:
  assumes "find (\<lambda>u. u_id u = user_id) (users (db s)) = Some usr"
    and "find (\<lambda>opt. o_id opt = vc_poll_option_id vote) (poll_options (db s)) = Some poll_option"
    and "poll_of (db s) poll_option = Some p"
    and "v \<in> set (votes (db s))" and "v_user_id v = user_id"
    and "v_poll_option_id v \<in> o_id ` set (options (db s) p)"
  shows "cast_vote vote user_id e s =
           (Inl (HTTPException 400 ''User has already voted for this poll''), s)"
proof -
  have "list_ex (\<lambda>existing_vote. v_poll_option_id existing_vote \<in> set (map o_id (options (db s) p)))
          (filter (\<lambda>v. v_user_id v = user_id) (votes (db s)))"
    using assms(4-6) by (auto simp add: list_ex_iff)
  then show ?thesis
    using assms(1-3) by (simp add: cast_vote_def Let_def)
qed

lemma cast_vote_polls: "polls (db (snd (cast_vote vote user_id e s))) = polls (db s)"
  by (auto simp add: cast_vote_def Let_def broadcast_frame
      split: option.splits if_splits sum.splits prod.splits)

lemma cast_vote_response:
  "cast_vote vote user_id e s = (Inr r, s') \<Longrightarrow>
     r = \<lparr>vr_user_id = user_id, vr_poll_option_id = vc_poll_option_id vote,
          vr_created_at = now_utc e\<rparr>"
  by (auto simp add: cast_vote_def Let_def broadcast_frame
      split: option.splits if_splits sum.splits prod.splits)

lemmas eval_defs = cast_vote_def poll_of_def options_def voted_options_def voters_def
  insert_vote_def get_poll_with_votes_def broadcast_frame Let_def subscribers_def

section \<open>Preservation of the invariants\<close>

lemma set_voted_options:
  "set (voted_options d u) =
     {opt \<in> set (poll_options d).
        \<exists>v\<in>set (votes d). v_user_id v = u_id u \<and> v_poll_option_id v = o_id opt}"
  by (auto simp add: voted_options_def)

lemma I1_iff:
  "I1 d \<longleftrightarrow>
     (\<forall>u\<in>set (users d). \<forall>o1\<in>set (poll_options d). \<forall>o2\<in>set (poll_options d).
        \<forall>v1\<in>set (votes d). \<forall>v2\<in>set (votes d).
          v_user_id v1 = u_id u \<and> v_poll_option_id v1 = o_id o1 \<and>
          v_user_id v2 = u_id u \<and> v_poll_option_id v2 = o_id o2 \<and>
          o_poll_id o1 = o_poll_id o2 \<longrightarrow> o1 = o2)"
  unfolding I1_def set_voted_options by blast

lemma distinct_map_eq:
  "distinct (map f xs) \<Longrightarrow> x \<in> set xs \<Longrightarrow> y \<in> set xs \<Longrightarrow> f x = f y \<Longrightarrow> x = y"
  by (meson distinct_map inj_onD)

lemma cast_vote_db:
  "db (snd (cast_vote vote user_id e s)) = db s \<or>
   (\<exists>usr poll_option p.
      find (\<lambda>u. u_id u = user_id) (users (db s)) = Some usr \<and>
      find (\<lambda>opt. o_id opt = vc_poll_option_id vote) (poll_options (db s)) = Some poll_option \<and>
      poll_of (db s) poll_option = Some p \<and>
      \<not> list_ex (\<lambda>ev. v_poll_option_id ev \<in> set (map o_id (options (db s) p)))
                 (filter (\<lambda>v. v_user_id v = user_id) (votes (db s))) \<and>
      db (snd (cast_vote vote user_id e s)) =
        insert_vote user_id (o_id poll_option) (now_db e) (db s))"
  by (auto simp add: cast_vote_def Let_def broadcast_frame
      split: option.splits if_splits sum.splits prod.splits)

lemma wf_insert_vote:
  assumes "wf d" and "usr \<in> set (users d)" and "opt \<in> set (poll_options d)"
  shows "wf (insert_vote (u_id usr) (o_id opt) now d)"
  using assms unfolding wf_def insert_vote_def by (auto simp add: )

lemma I1_insert_vote:
  assumes "wf d" and "I1 d"
    and "usr \<in> set (users d)" and "poll_option \<in> set (poll_options d)"
    and "poll_of d poll_option = Some p"
    and "\<not> list_ex (\<lambda>ev. v_poll_option_id ev \<in> set (map o_id (options d p)))
                 (filter (\<lambda>v. v_user_id v = u_id usr) (votes d))"
  shows "I1 (insert_vote (u_id usr) (o_id poll_option) now d)"
proof -
  have p: "p_id p = o_poll_id poll_option"
    using assms(5) by (auto simp add: poll_of_def find_Some_iff)
  have dist: "distinct (map o_id (poll_options d))"
    using assms(1) by (simp add: wf_def)
  have fresh: "\<And>v opt. v \<in> set (votes d) \<Longrightarrow> v_user_id v = u_id usr \<Longrightarrow>
      opt \<in> set (poll_options d) \<Longrightarrow> v_poll_option_id v = o_id opt \<Longrightarrow>
      o_poll_id opt \<noteq> o_poll_id poll_option"
    using assms(6) p by (auto simp add: list_ex_iff options_def)
  have same: "\<And>opt. opt \<in> set (poll_options d) \<Longrightarrow> o_id opt = o_id poll_option \<Longrightarrow> opt = poll_option"
    using distinct_map_eq [OF dist _ assms(4)] by blast
  show ?thesis
    unfolding I1_iff
  proof (intro ballI impI, elim conjE)
    fix u o1 o2 v1 v2
    assume u: "u \<in> set (users (insert_vote (u_id usr) (o_id poll_option) now d))"
      and o1: "o1 \<in> set (poll_options (insert_vote (u_id usr) (o_id poll_option) now d))"
      and o2: "o2 \<in> set (poll_options (insert_vote (u_id usr) (o_id poll_option) now d))"
      and v1: "v1 \<in> set (votes (insert_vote (u_id usr) (o_id poll_option) now d))"
      and v2: "v2 \<in> set (votes (insert_vote (u_id usr) (o_id poll_option) now d))"
      and e: "v_user_id v1 = u_id u" "v_poll_option_id v1 = o_id o1"
             "v_user_id v2 = u_id u" "v_poll_option_id v2 = o_id o2"
             "o_poll_id o1 = o_poll_id o2"
    let ?new = "\<lparr>v_id = votes_seq d, v_user_id = u_id usr, v_poll_option_id = o_id poll_option,
                  v_created_at = now\<rparr>"
    from u o1 o2 have u': "u \<in> set (users d)" and o1': "o1 \<in> set (poll_options d)"
      and o2': "o2 \<in> set (poll_options d)" by (simp_all add: insert_vote_def)
    from v1 have c1: "v1 \<in> set (votes d) \<or> v1 = ?new" by (auto simp add: insert_vote_def)
    from v2 have c2: "v2 \<in> set (votes d) \<or> v2 = ?new" by (auto simp add: insert_vote_def)
    show "o1 = o2"
    proof (cases "v1 \<in> set (votes d)")
      case old1: True
      show ?thesis
      proof (cases "v2 \<in> set (votes d)")
        case True
        with old1 assms(2) u' o1' o2' e show ?thesis unfolding I1_iff by blast
      next
        case False
        with c2 have "v2 = ?new" by simp
        with e have "o_id o2 = o_id poll_option" "u_id u = u_id usr" by simp_all
        with same o2' have "o2 = poll_option" by simp
        with fresh [OF old1 _ o1'] e \<open>u_id u = u_id usr\<close> show ?thesis by simp
      qed
    next
      case False
      with c1 have n1: "v1 = ?new" by simp
      with e have i1: "o_id o1 = o_id poll_option" "u_id u = u_id usr" by simp_all
      with same o1' have o1p: "o1 = poll_option" by simp
      show ?thesis
      proof (cases "v2 \<in> set (votes d)")
        case True
        with fresh [OF True _ o2'] e i1 o1p show ?thesis by simp
      next
        case False
        with c2 have "v2 = ?new" by simp
        with e have "o_id o2 = o_id poll_option" by simp
        with same [OF o2'] o1p show ?thesis by simp
      qed
    qed
  qed
qed

lemma find_Some_mem: "find P xs = Some x \<Longrightarrow> x \<in> set xs \<and> P x"
  by (auto simp add: find_Some_iff)

lemma cast_vote_wf_I1:
  assumes "wf (db s)" and "I1 (db s)"
  shows "wf (db (snd (cast_vote vote user_id e s))) \<and> I1 (db (snd (cast_vote vote user_id e s)))"
proof -
  from cast_vote_db [of vote user_id e s] show ?thesis
  proof
    assume "db (snd (cast_vote vote user_id e s)) = db s"
    with assms show ?thesis by simp
  next
    assume "\<exists>usr poll_option p.
      find (\<lambda>u. u_id u = user_id) (users (db s)) = Some usr \<and>
      find (\<lambda>opt. o_id opt = vc_poll_option_id vote) (poll_options (db s)) = Some poll_option \<and>
      poll_of (db s) poll_option = Some p \<and>
      \<not> list_ex (\<lambda>ev. v_poll_option_id ev \<in> set (map o_id (options (db s) p)))
                 (filter (\<lambda>v. v_user_id v = user_id) (votes (db s))) \<and>
      db (snd (cast_vote vote user_id e s)) =
        insert_vote user_id (o_id poll_option) (now_db e) (db s)"
    then obtain usr poll_option p where
      u: "find (\<lambda>u. u_id u = user_id) (users (db s)) = Some usr" and
      o: "find (\<lambda>opt. o_id opt = vc_poll_option_id vote) (poll_options (db s)) = Some poll_option" and
      p: "poll_of (db s) poll_option = Some p" and
      n: "\<not> list_ex (\<lambda>ev. v_poll_option_id ev \<in> set (map o_id (options (db s) p)))
                 (filter (\<lambda>v. v_user_id v = user_id) (votes (db s)))" and
      d: "db (snd (cast_vote vote user_id e s)) =
            insert_vote user_id (o_id poll_option) (now_db e) (db s)"
      by blast
    from find_Some_mem [OF u] have u': "usr \<in> set (users (db s))" and uid: "user_id = u_id usr"
      by simp_all
    from find_Some_mem [OF o] have o': "poll_option \<in> set (poll_options (db s))" by simp
    show ?thesis
      using wf_insert_vote [OF assms(1) u' o', of "now_db e"]
        I1_insert_vote [OF assms u' o' p n [unfolded uid], of "now_db e"] d uid
      by simp
  qed
qed

text \<open>Adding a user.\<close>

lemma create_user_db:
  "snd (create_user usr h now d) = d \<or>
   snd (create_user usr h now d) =
     d\<lparr>users := users d @ [\<lparr>u_id = users_seq d, u_name = uc_name usr, u_email = uc_email usr,
                             u_password_hash = h, u_created_at = now\<rparr>],
       users_seq := users_seq d + 1\<rparr>"
  by (simp add: create_user_def Let_def split: option.splits)

lemma wf_add_user:
  assumes "wf d" and "u_id u = users_seq d"
  shows "wf (d\<lparr>users := users d @ [u], users_seq := users_seq d + 1\<rparr>)"
  using assms unfolding wf_def by (auto simp add: )

lemma I1_add_user:
  assumes "wf d" and "I1 d" and "u_id u = users_seq d"
  shows "I1 (d\<lparr>users := users d @ [u], users_seq := users_seq d + 1\<rparr>)"
proof -
  have "\<And>v. v \<in> set (votes d) \<Longrightarrow> v_user_id v \<noteq> u_id u"
    using assms(1,3) unfolding wf_def by fastforce
  with assms(2) show ?thesis unfolding I1_iff by auto
qed

lemma create_user_wf_I1:
  assumes "wf d" and "I1 d"
  shows "wf (snd (create_user usr h now d)) \<and> I1 (snd (create_user usr h now d))"
  using create_user_db [of usr h now d] assms
  by (auto simp add: wf_add_user I1_add_user)

text \<open>Adding a poll and its options.\<close>

lemma wf_add_poll:
  assumes "wf d" and "p_id p = polls_seq d"
  shows "wf (d\<lparr>polls := polls d @ [p], polls_seq := polls_seq d + 1\<rparr>)"
  using assms unfolding wf_def by (auto simp add: )

lemma I1_add_poll:
  "I1 (d\<lparr>polls := polls d @ [p], polls_seq := polls_seq d + 1\<rparr>) = I1 d"
  unfolding I1_iff by simp

lemma wf_add_option:
  assumes "wf d" and "o_id opt = poll_options_seq d" and "o_poll_id opt \<in> p_id ` set (polls d)"
  shows "wf (d\<lparr>poll_options := poll_options d @ [opt], poll_options_seq := poll_options_seq d + 1\<rparr>)"
  using assms unfolding wf_def by (auto simp add: )

lemma I1_add_option:
  assumes "wf d" and "I1 d" and "o_id opt = poll_options_seq d"
  shows "I1 (d\<lparr>poll_options := poll_options d @ [opt], poll_options_seq := poll_options_seq d + 1\<rparr>)"
proof -
  have "\<And>v. v \<in> set (votes d) \<Longrightarrow> v_poll_option_id v \<noteq> o_id opt"
    using assms(1,3) unfolding wf_def by fastforce
  with assms(2) show ?thesis unfolding I1_iff by auto
qed

lemma add_options_polls [simp]: "polls (add_options xs poll_id now d) = polls d"
  by (induction xs arbitrary: d) simp_all

lemma add_options_users [simp]: "users (add_options xs poll_id now d) = users d"
  by (induction xs arbitrary: d) simp_all

lemma add_options_votes [simp]: "votes (add_options xs poll_id now d) = votes d"
  by (induction xs arbitrary: d) simp_all

lemma add_options_wf_I1:
  assumes "wf d" and "I1 d" and "poll_id \<in> p_id ` set (polls d)"
  shows "wf (add_options xs poll_id now d) \<and> I1 (add_options xs poll_id now d)"
  using assms
proof (induction xs arbitrary: d)
  case Nil
  then show ?case by simp
next
  case (Cons x xs)
  let ?opt = "\<lparr>o_id = poll_options_seq d, o_text = poc_text x, o_poll_id = poll_id, o_created_at = now\<rparr>"
  let ?d = "d\<lparr>poll_options := poll_options d @ [?opt], poll_options_seq := poll_options_seq d + 1\<rparr>"
  have "wf ?d" using Cons.prems by (intro wf_add_option) simp_all
  moreover have "I1 ?d" using Cons.prems by (intro I1_add_option) simp_all
  moreover have "poll_id \<in> p_id ` set (polls ?d)" using Cons.prems by simp
  ultimately show ?case using Cons.IH [of ?d] by simp
qed

lemma create_poll_db:
  "snd (create_poll pc creator_id now now' d) = d \<or>
   snd (create_poll pc creator_id now now' d) =
     add_options (pc_options pc) (polls_seq d) now'
       (d\<lparr>polls := polls d @ [\<lparr>p_id = polls_seq d, p_question = pc_question pc,
                                p_is_published = pc_is_published pc, p_created_at = now,
                                p_updated_at = now, p_creator_id = creator_id\<rparr>],
          polls_seq := polls_seq d + 1\<rparr>)"
  by (simp add: create_poll_def Let_def split: option.splits)

lemma create_poll_wf_I1:
  assumes "wf d" and "I1 d"
  shows "wf (snd (create_poll pc creator_id now now' d)) \<and> I1 (snd (create_poll pc creator_id now now' d))"
proof -
  let ?p = "\<lparr>p_id = polls_seq d, p_question = pc_question pc,
             p_is_published = pc_is_published pc, p_created_at = now,
             p_updated_at = now, p_creator_id = creator_id\<rparr>"
  let ?d = "d\<lparr>polls := polls d @ [?p], polls_seq := polls_seq d + 1\<rparr>"
  have "wf ?d" using assms(1) by (intro wf_add_poll) simp_all
  moreover have "I1 ?d" using assms(2) by (simp only: I1_add_poll)
  moreover have "polls_seq d \<in> p_id ` set (polls ?d)" by simp
  ultimately have "wf (add_options (pc_options pc) (polls_seq d) now' ?d)
                 \<and> I1 (add_options (pc_options pc) (polls_seq d) now' ?d)"
    by (rule add_options_wf_I1)
  with create_poll_db [of pc creator_id now now' d] assms show ?thesis by auto
qed

lemma websocket_endpoint_db [simp]: "db (websocket_endpoint ws poll_id e s) = db s"
  by (simp add: websocket_endpoint_def Let_def split: sum.splits)

lemma step_wf_I1:
  assumes "wf (db s)" and "I1 (db s)"
  shows "wf (db (step op s)) \<and> I1 (db (step op s))"
  using assms
  by (cases op) (simp_all add: cast_vote_wf_I1 create_poll_wf_I1 create_user_wf_I1 split: sum.splits)

lemma run_wf_I1:
  assumes "wf (db s)" and "I1 (db s)"
  shows "wf (db (run ops s)) \<and> I1 (db (run ops s))"
  using assms unfolding run_def
proof (induction ops arbitrary: s)
  case Nil
  then show ?case by simp
next
  case (Cons op ops)
  from step_wf_I1 [OF Cons.prems, of op] Cons.IH [of "step op s"] show ?case by simp
qed

section \<open>The registry\<close>

lemma update_entries:
  "(k, c) \<in> set (AList.update k' v al) \<Longrightarrow> (k, c) \<in> set al \<or> (k = k' \<and> c = v)"
  by (induction al) (auto split: if_splits)

lemma subscribe_entries:
  assumes "(k, c) \<in> set (poll_subscribers (subscribe_to_poll poll_id ws m))"
  shows "(k, c) \<in> set (poll_subscribers m) \<or>
         (k = poll_id \<and> (c = [] \<or>
            (\<exists>conns. ws \<notin> set conns \<and> (conns = [] \<or> (poll_id, conns) \<in> set (poll_subscribers m))
                     \<and> c = conns @ [ws])))"
proof -
  let ?ps = "if poll_id \<notin> fst ` set (poll_subscribers m)
             then AList.update poll_id [] (poll_subscribers m) else poll_subscribers m"
  have ps: "\<And>k c. (k, c) \<in> set ?ps \<Longrightarrow> (k, c) \<in> set (poll_subscribers m) \<or> (k = poll_id \<and> c = [])"
    by (auto dest: update_entries split: if_splits)
  show ?thesis
  proof (cases "map_of ?ps poll_id")
    case None
    with assms have "(k, c) \<in> set ?ps" by (simp add: subscribe_to_poll_def Let_def)
    with ps show ?thesis by blast
  next
    case (Some conns)
    then have "(poll_id, conns) \<in> set ?ps" by (rule map_of_SomeD)
    with ps have conns: "conns = [] \<or> (poll_id, conns) \<in> set (poll_subscribers m)" by blast
    show ?thesis
    proof (cases "ws \<in> set conns")
      case True
      with Some assms have "(k, c) \<in> set ?ps" by (simp add: subscribe_to_poll_def Let_def)
      with ps show ?thesis by blast
    next
      case False
      with Some assms have "(k, c) \<in> set (AList.update poll_id (conns @ [ws]) ?ps)"
        by (simp add: subscribe_to_poll_def Let_def)
      then have "(k, c) \<in> set ?ps \<or> (k = poll_id \<and> c = conns @ [ws])"
        by (rule update_entries)
      with ps conns False show ?thesis by blast
    qed
  qed
qed

lemma subscriptions_valid_iff:
  "subscriptions_valid s \<longleftrightarrow>
     (\<forall>k c. (k, c) \<in> set (poll_subscribers (manager s)) \<longrightarrow> c = [] \<or> k \<in> p_id ` set (polls (db s)))"
  unfolding subscriptions_valid_def by (auto simp add: neq_Nil_conv) force

lemma get_poll_with_votes_exists:
  "(\<exists>r. get_poll_with_votes poll_id d = Inr r) \<longleftrightarrow> poll_id \<in> p_id ` set (polls d)"
  by (auto simp add: get_poll_with_votes_def find_None_iff find_Some_iff split: option.splits)

lemma connect_poll_subscribers [simp]: "poll_subscribers (connect ws m) = poll_subscribers m"
  by (simp add: connect_def)

lemma disconnect_entries:
  "(k, c) \<in> set (poll_subscribers (disconnect ws m)) \<Longrightarrow>
     \<exists>c0. (k, c0) \<in> set (poll_subscribers m) \<and> c = remove_if_in ws c0"
  by (auto simp add: disconnect_def)

lemma disconnect_valid:
  assumes "subscriptions_valid s"
  shows "subscriptions_valid (s\<lparr>manager := disconnect ws (manager s)\<rparr>)"
  unfolding subscriptions_valid_iff
proof (intro allI impI)
  fix k c
  assume "(k, c) \<in> set (poll_subscribers (manager (s\<lparr>manager := disconnect ws (manager s)\<rparr>)))"
  then obtain c0 where c0: "(k, c0) \<in> set (poll_subscribers (manager s))" and c: "c = remove_if_in ws c0"
    using disconnect_entries [of k c ws "manager s"] by auto
  from assms c0 have "c0 = [] \<or> k \<in> p_id ` set (polls (db s))"
    unfolding subscriptions_valid_iff by blast
  then show "c = [] \<or> k \<in> p_id ` set (polls (db (s\<lparr>manager := disconnect ws (manager s)\<rparr>)))"
    using c by (auto simp add: remove_if_in_def)
qed

lemma websocket_endpoint_valid:
  assumes "subscriptions_valid s"
  shows "subscriptions_valid (websocket_endpoint ws poll_id e s)"
proof (cases "poll_id \<in> p_id ` set (polls (db s))")
  case True
  let ?s1 = "s\<lparr>manager := subscribe_to_poll poll_id ws (connect ws (manager s))\<rparr>"
  have s1: "subscriptions_valid ?s1"
    unfolding subscriptions_valid_iff
  proof (intro allI impI)
    fix k c
    assume "(k, c) \<in> set (poll_subscribers (manager ?s1))"
    then have "(k, c) \<in> set (poll_subscribers (manager s)) \<or> k = poll_id"
      using subscribe_entries [of k c poll_id ws "connect ws (manager s)"] by auto
    with assms True show "c = [] \<or> k \<in> p_id ` set (polls (db ?s1))"
      unfolding subscriptions_valid_iff by auto
  qed
  from True obtain r where r: "get_poll_with_votes poll_id (db s) = Inr r"
    using get_poll_with_votes_exists by blast
  have w: "\<And>t w. subscriptions_valid (t\<lparr>wire := w\<rparr>) = subscriptions_valid t"
    by (simp add: subscriptions_valid_def)
  show ?thesis
  proof (cases "json_serializable (frame ''initial_data'' r) \<and> send_ok e ws")
    case True
    with r s1 show ?thesis by (simp add: websocket_endpoint_def Let_def w)
  next
    case False
    with r disconnect_valid [OF s1, of ws] show ?thesis
      by (simp add: websocket_endpoint_def Let_def subscriptions_valid_def)
  qed
next
  case False
  let ?m1 = "subscribe_to_poll poll_id ws (connect ws (manager s))"
  from False have r: "get_poll_with_votes poll_id (db s) = Inl (HTTPException 404 ''Poll not found'')"
    by (auto simp add: get_poll_with_votes_def find_None_iff split: option.splits)
  have "websocket_endpoint ws poll_id e s = s\<lparr>manager := disconnect ws ?m1\<rparr>"
    using r by (simp add: websocket_endpoint_def Let_def)
  moreover have "subscriptions_valid (s\<lparr>manager := disconnect ws ?m1\<rparr>)"
    unfolding subscriptions_valid_iff
  proof (intro allI impI)
    fix k c
    assume "(k, c) \<in> set (poll_subscribers (manager (s\<lparr>manager := disconnect ws ?m1\<rparr>)))"
    then obtain c1 where c1: "(k, c1) \<in> set (poll_subscribers ?m1)" and c: "c = remove_if_in ws c1"
      using disconnect_entries [of k c ws ?m1] by auto
    from subscribe_entries [OF c1]
    consider "(k, c1) \<in> set (poll_subscribers (manager s))"
      | "k = poll_id" "c1 = []"
      | conns where "k = poll_id" "ws \<notin> set conns" "c1 = conns @ [ws]"
          "conns = [] \<or> (poll_id, conns) \<in> set (poll_subscribers (manager s))"
      by auto
    then show "c = [] \<or> k \<in> p_id ` set (polls (db (s\<lparr>manager := disconnect ws ?m1\<rparr>)))"
    proof cases
      case 1
      with assms have "c1 = [] \<or> k \<in> p_id ` set (polls (db s))"
        unfolding subscriptions_valid_iff by blast
      with c show ?thesis by (auto simp add: remove_if_in_def)
    next
      case 2
      with c show ?thesis by (simp add: remove_if_in_def)
    next
      case 3
      from 3(4) assms False have "conns = []"
        unfolding subscriptions_valid_iff by blast
      with 3 c show ?thesis by (simp add: remove_if_in_def)
    qed
  qed
  ultimately show ?thesis by simp
qed

lemma cast_vote_manager:
  "manager (snd (cast_vote vote user_id e s)) = manager s \<or>
   (\<exists>poll_id conns. map_of (poll_subscribers (manager s)) poll_id = Some conns \<and>
      manager (snd (cast_vote vote user_id e s)) =
        (manager s)\<lparr>poll_subscribers :=
           AList.update poll_id [] (poll_subscribers (manager s))\<rparr>)"
  by (auto simp add: cast_vote_def Let_def broadcast_frame
      split: option.splits if_splits sum.splits prod.splits)

lemma cast_vote_valid:
  assumes "subscriptions_valid s"
  shows "subscriptions_valid (snd (cast_vote vote user_id e s))"
  unfolding subscriptions_valid_iff
proof (intro allI impI)
  fix k c
  let ?s' = "snd (cast_vote vote user_id e s)"
  assume kc: "(k, c) \<in> set (poll_subscribers (manager ?s'))"
  have polls: "polls (db ?s') = polls (db s)" by (rule cast_vote_polls)
  from cast_vote_manager [of vote user_id e s]
  have "\<exists>c0. (k, c0) \<in> set (poll_subscribers (manager s)) \<and> set c \<subseteq> set c0"
  proof
    assume "manager ?s' = manager s"
    with kc show ?thesis by auto
  next
    assume "\<exists>poll_id conns. map_of (poll_subscribers (manager s)) poll_id = Some conns \<and>
      manager ?s' = (manager s)\<lparr>poll_subscribers :=
           AList.update poll_id [] (poll_subscribers (manager s))\<rparr>"
    then obtain poll_id conns where
      m: "map_of (poll_subscribers (manager s)) poll_id = Some conns" and
      eq: "manager ?s' = (manager s)\<lparr>poll_subscribers :=
           AList.update poll_id [] (poll_subscribers (manager s))\<rparr>"
      by blast
    from kc eq have "(k, c) \<in> set (AList.update poll_id [] (poll_subscribers (manager s)))"
      by simp
    then have "(k, c) \<in> set (poll_subscribers (manager s)) \<or> (k = poll_id \<and> c = [])"
      by (rule update_entries)
    with map_of_SomeD [OF m] show ?thesis by auto
  qed
  then obtain c0 where c0: "(k, c0) \<in> set (poll_subscribers (manager s))" and sub: "set c \<subseteq> set c0"
    by blast
  from assms c0 have "c0 = [] \<or> k \<in> p_id ` set (polls (db s))"
    unfolding subscriptions_valid_iff by blast
  with sub polls show "c = [] \<or> k \<in> p_id ` set (polls (db ?s'))" by auto
qed

lemma create_user_polls [simp]: "polls (snd (create_user usr h now d)) = polls d"
  using create_user_db [of usr h now d] by auto

lemma create_poll_polls: "set (polls d) \<subseteq> set (polls (snd (create_poll pc creator_id now now' d)))"
  using create_poll_db [of pc creator_id now now' d] by auto

lemma db_grows_valid:
  assumes "subscriptions_valid s" and "set (polls (db s)) \<subseteq> set (polls d')"
  shows "subscriptions_valid (s\<lparr>db := d'\<rparr>)"
  using assms unfolding subscriptions_valid_iff by auto

lemma step_valid:
  assumes "subscriptions_valid s" and "is_handler op"
  shows "subscriptions_valid (step op s)"
proof (cases op)
  case (CastVote vote user_id e)
  with assms(1) show ?thesis by (simp add: cast_vote_valid)
next
  case (CreatePoll pc creator_id now now')
  with assms(1) show ?thesis by (simp add: db_grows_valid create_poll_polls)
next
  case (CreateUser usr h now)
  with assms(1) show ?thesis by (simp add: db_grows_valid)
next
  case (BuildSnapshot poll_id)
  with assms(1) show ?thesis by (simp split: sum.splits)
next
  case (Subscribe poll_id ws)
  with assms(2) show ?thesis by (simp add: is_handler_def)
next
  case (Connect ws)
  with assms(1) show ?thesis by (simp add: subscriptions_valid_def)
next
  case (Disconnect ws)
  with assms(1) show ?thesis by (simp add: disconnect_valid)
next
  case (WebsocketEndpoint ws poll_id e)
  with assms(1) show ?thesis by (simp add: websocket_endpoint_valid)
qed

lemma run_valid:
  assumes "subscriptions_valid s" and "list_all is_handler ops"
  shows "subscriptions_valid (run ops s)"
  using assms unfolding run_def
proof (induction ops arbitrary: s)
  case Nil
  then show ?case by simp
next
  case (Cons op ops)
  then show ?case by (simp add: step_valid)
qed

section \<open>The order of a snapshot's options\<close>

lemma get_poll_with_votes_options:
  "get_poll_with_votes poll_id d = Inr snapshot \<Longrightarrow>
     pr_options snapshot =
       map (\<lambda>opt. \<lparr>por_id = o_id opt, por_text = o_text opt,
                    por_vote_count = int (length (voters d opt))\<rparr>)
           (sort_key (scan_rank d) (filter (\<lambda>opt. o_poll_id opt = poll_id) (poll_options d)))"
  by (auto simp add: get_poll_with_votes_def options_def find_Some_iff split: option.splits)

lemma add_options_appends:
  "\<exists>new. poll_options (add_options xs poll_id now d) = poll_options d @ new"
proof (induction xs arbitrary: d)
  case Nil
  show ?case by simp
next
  case (Cons x xs)
  let ?d = "d\<lparr>poll_options := poll_options d @
               [\<lparr>o_id = poll_options_seq d, o_text = poc_text x, o_poll_id = poll_id, o_created_at = now\<rparr>],
              poll_options_seq := poll_options_seq d + 1\<rparr>"
  from Cons.IH [of ?d] obtain new where "poll_options (add_options xs poll_id now ?d) = poll_options ?d @ new"
    by blast
  then show ?case by simp
qed

lemma step_appends_options:
  "\<exists>new. poll_options (db (step op s)) = poll_options (db s) @ new"
proof (cases op)
  case (CastVote vote user_id e)
  from cast_vote_db [of vote user_id e s] have "poll_options (db (snd (cast_vote vote user_id e s))) = poll_options (db s)"
    by auto
  with CastVote show ?thesis by simp
next
  case (CreatePoll pc creator_id now now')
  let ?d = "db s\<lparr>polls := polls (db s) @ [\<lparr>p_id = polls_seq (db s), p_question = pc_question pc,
                                p_is_published = pc_is_published pc, p_created_at = now,
                                p_updated_at = now, p_creator_id = creator_id\<rparr>],
          polls_seq := polls_seq (db s) + 1\<rparr>"
  from add_options_appends [of "pc_options pc" "polls_seq (db s)" now' ?d]
  have "\<exists>new. poll_options (add_options (pc_options pc) (polls_seq (db s)) now' ?d) = poll_options (db s) @ new"
    by simp
  with create_poll_db [of pc creator_id now now' "db s"] CreatePoll show ?thesis by auto
next
  case (CreateUser usr h now)
  with create_user_db [of usr h now "db s"] show ?thesis by auto
next
  case (BuildSnapshot poll_id)
  then show ?thesis by (simp split: sum.splits)
qed simp_all

lemma run_appends_options:
  "\<exists>new. poll_options (db (run ops s)) = poll_options (db s) @ new"
  unfolding run_def
proof (induction ops arbitrary: s)
  case Nil
  show ?case by simp
next
  case (Cons op ops)
  from step_appends_options [of op s] obtain n1 where "poll_options (db (step op s)) = poll_options (db s) @ n1"
    by blast
  moreover from Cons.IH [of "step op s"] obtain n2 where
    "poll_options (db (fold step ops (step op s))) = poll_options (db (step op s)) @ n2" by blast
  ultimately show ?case by simp
qed

section \<open>Vote counts\<close>

lemma length_filter_key:
  "distinct (map f xs) \<Longrightarrow> k \<in> f ` set xs \<Longrightarrow> length (filter (\<lambda>y. f y = k) xs) = 1"
proof (induction xs)
  case Nil
  then show ?case by simp
next
  case (Cons a xs)
  show ?case
  proof (cases "f a = k")
    case True
    from Cons.prems(1) have "f a \<notin> f ` set xs" by simp
    then have "\<forall>y\<in>set xs. f y \<noteq> f a" by (metis imageI)
    with True have "filter (\<lambda>y. f y = k) xs = []"
      by (simp add: filter_empty_conv)
    with True show ?thesis by simp
  next
    case False
    with Cons show ?thesis by auto
  qed
qed

lemma length_concat_ones:
  "(\<And>x. x \<in> set xs \<Longrightarrow> length (g x) = 1) \<Longrightarrow> length (concat (map g xs)) = length xs"
  by (induction xs) simp_all

lemma length_voters:
  assumes "wf d"
  shows "length (voters d opt) = length (filter (\<lambda>v. v_poll_option_id v = o_id opt) (votes d))"
proof -
  have "distinct (map u_id (users d))" and fk: "\<And>v. v \<in> set (votes d) \<Longrightarrow> v_user_id v \<in> u_id ` set (users d)"
    using assms by (simp_all add: wf_def)
  then have "\<And>v. v \<in> set (filter (\<lambda>v. v_poll_option_id v = o_id opt) (votes d)) \<Longrightarrow>
      length (filter (\<lambda>u. u_id u = v_user_id v) (users d)) = 1"
    by (intro length_filter_key) simp_all
  then show ?thesis unfolding voters_def by (rule length_concat_ones)
qed

lemma distinct_voters_card:
  assumes "no_duplicate_votes d"
  shows "card (distinct_voters d option_id) =
           length (filter (\<lambda>v. v_poll_option_id v = option_id) (votes d))"
proof -
  let ?vs = "filter (\<lambda>v. v_poll_option_id v = option_id) (votes d)"
  have "distinct (map (\<lambda>v. (v_user_id v, v_poll_option_id v)) ?vs)"
    using assms unfolding no_duplicate_votes_def by (rule distinct_map_filter)
  then have "distinct (map v_user_id ?vs)"
    by (auto simp add: distinct_map inj_on_def)
  then have "card (set (map v_user_id ?vs)) = length (map v_user_id ?vs)"
    by (rule distinct_card)
  moreover have "set (map v_user_id ?vs) = distinct_voters d option_id"
    by (auto simp add: distinct_voters_def)
  ultimately show ?thesis by simp
qed

lemma snapshot_counts:
  assumes "wf d" and "no_duplicate_votes d" and "get_poll_with_votes poll_id d = Inr snapshot"
  shows "pr_options snapshot =
           map (\<lambda>opt. \<lparr>por_id = o_id opt, por_text = o_text opt,
                        por_vote_count = int (card (distinct_voters d (o_id opt)))\<rparr>)
               (sort_key (scan_rank d) (filter (\<lambda>opt. o_poll_id opt = poll_id) (poll_options d)))"
  using get_poll_with_votes_options [OF assms(3)]
  by (simp add: length_voters [OF assms(1)] distinct_voters_card [OF assms(2)])

text \<open>One more vote.\<close>

lemma voters_insert_vote:
  "voters (insert_vote user_id option_id now d) opt =
     voters d opt @ (if option_id = o_id opt then filter (\<lambda>u. u_id u = user_id) (users d) else [])"
  by (simp add: voters_def insert_vote_def)

lemma snapshot_insert_vote:
  assumes "distinct (map u_id (users d))" and "user_id \<in> u_id ` set (users d)"
    and "get_poll_with_votes poll_id d = Inr before"
  shows "\<exists>after. get_poll_with_votes poll_id (insert_vote user_id option_id now d) = Inr after \<and>
           pr_options after = map (bump option_id 1) (pr_options before)"
proof -
  have one: "length (filter (\<lambda>u. u_id u = user_id) (users d)) = 1"
    using assms(1,2) by (rule length_filter_key)
  from assms(3) obtain p where p: "find (\<lambda>p. p_id p = poll_id) (polls d) = Some p"
    by (auto simp add: get_poll_with_votes_def split: option.splits)
  then obtain after where a: "get_poll_with_votes poll_id (insert_vote user_id option_id now d) = Inr after"
    by (simp add: get_poll_with_votes_def)
  have "pr_options after = map (bump option_id 1) (pr_options before)"
    unfolding get_poll_with_votes_options [OF a] get_poll_with_votes_options [OF assms(3)]
    by (simp add: bump_def voters_insert_vote one)
  with a show ?thesis by blast
qed

lemma has_voted_in_iff:
  "has_voted_in d user_id poll_id \<longleftrightarrow>
     list_ex (\<lambda>ev. v_poll_option_id ev \<in> set (map o_id (filter (\<lambda>opt. o_poll_id opt = poll_id) (poll_options d))))
             (filter (\<lambda>v. v_user_id v = user_id) (votes d))"
  by (auto simp add: has_voted_in_def list_ex_iff)

lemma cast_vote_new:
  assumes "user_id \<in> u_id ` set (users (db s))"
    and "find (\<lambda>opt. o_id opt = vc_poll_option_id vote) (poll_options (db s)) = Some target"
    and "get_poll_with_votes (o_poll_id target) (db s) = Inr before"
    and "\<not> has_voted_in (db s) user_id (o_poll_id target)"
  shows "\<exists>r s'. cast_vote vote user_id e s = (Inr r, s') \<and>
           db s' = insert_vote user_id (o_id target) (now_db e) (db s)"
proof -
  from assms(1) obtain usr where u: "find (\<lambda>u. u_id u = user_id) (users (db s)) = Some usr"
    by (cases "find (\<lambda>u. u_id u = user_id) (users (db s))") (auto simp add: find_None_iff)
  then have uid: "u_id usr = user_id" by (auto simp add: find_Some_iff)
  from assms(3) obtain p where p: "poll_of (db s) target = Some p"
    by (auto simp add: get_poll_with_votes_def poll_of_def split: option.splits)
  then have pid: "p_id p = o_poll_id target" by (auto simp add: poll_of_def find_Some_iff)
  from assms(2) have t: "target \<in> set (poll_options (db s))" by (auto simp add: find_Some_iff)
  have n: "\<not> list_ex (\<lambda>ev. v_poll_option_id ev \<in> set (map o_id (options (db s) p)))
                 (filter (\<lambda>v. v_user_id v = user_id) (votes (db s)))"
    using assms(4) by (simp add: has_voted_in_iff options_def pid)
  have "target \<notin> set (voted_options (db s) usr)"
    using assms(4) t uid by (auto simp add: set_voted_options has_voted_in_def)
  moreover obtain after where "get_poll_with_votes (o_poll_id target)
      (insert_vote user_id (o_id target) (now_db e) (db s)) = Inr after"
    using assms(3) by (auto simp add: get_poll_with_votes_def split: option.splits)
  ultimately show ?thesis
    using u assms(2) p n
    by (simp add: cast_vote_def Let_def broadcast_frame split: option.splits)
qed

lemma has_voted_in_insert_vote:
  "u \<noteq> user_id \<Longrightarrow>
     has_voted_in (insert_vote user_id option_id now d) u poll_id = has_voted_in d u poll_id"
  by (auto simp add: has_voted_in_def insert_vote_def)

lemma bump_zero: "bump option_id 0 = id"
  by (simp add: bump_def fun_eq_iff)

lemma bump_bump: "bump option_id k (bump option_id j r) = bump option_id (j + k) r"
  by (simp add: bump_def)

lemma cast_votes_counts:
  assumes "distinct (map u_id (users (db s)))"
    and "find (\<lambda>opt. o_id opt = vc_poll_option_id vote) (poll_options (db s)) = Some target"
    and "distinct (map fst calls)"
    and "\<forall>(user_id, e)\<in>set calls. user_id \<in> u_id ` set (users (db s)) \<and>
                                   \<not> has_voted_in (db s) user_id (o_poll_id target)"
    and "get_poll_with_votes (o_poll_id target) (db s) = Inr before"
  shows "\<exists>s' after. cast_votes vote calls s = Some s' \<and>
           get_poll_with_votes (o_poll_id target) (db s') = Inr after \<and>
           pr_options after = map (bump (o_id target) (int (length calls))) (pr_options before)"
  using assms
proof (induction calls arbitrary: s before)
  case Nil
  then show ?case by (simp add: bump_zero)
next
  case (Cons call calls)
  obtain user_id e where call: "call = (user_id, e)" by (cases call)
  from Cons.prems(4) call have ex: "user_id \<in> u_id ` set (users (db s))"
    and nv: "\<not> has_voted_in (db s) user_id (o_poll_id target)" by auto
  from cast_vote_new [OF ex Cons.prems(2) Cons.prems(5) nv, of e]
  obtain r s1 where cv: "cast_vote vote user_id e s = (Inr r, s1)"
    and d1: "db s1 = insert_vote user_id (o_id target) (now_db e) (db s)" by blast
  from snapshot_insert_vote [OF Cons.prems(1) ex Cons.prems(5), of "o_id target" "now_db e"] d1
  obtain mid where mid: "get_poll_with_votes (o_poll_id target) (db s1) = Inr mid"
    and midopts: "pr_options mid = map (bump (o_id target) 1) (pr_options before)" by auto
  have 1: "distinct (map u_id (users (db s1)))" using Cons.prems(1) d1 by simp
  have 2: "find (\<lambda>opt. o_id opt = vc_poll_option_id vote) (poll_options (db s1)) = Some target"
    using Cons.prems(2) d1 by simp
  have 3: "distinct (map fst calls)" using Cons.prems(3) by simp
  have 4: "\<forall>(u, e')\<in>set calls. u \<in> u_id ` set (users (db s1)) \<and>
                           \<not> has_voted_in (db s1) u (o_poll_id target)"
  proof (intro ballI, clarify)
    fix u e'
    assume m: "(u, e') \<in> set calls"
    then have "u \<noteq> user_id" using Cons.prems(3) call by (auto simp add: image_iff)
    moreover from m Cons.prems(4) have "u \<in> u_id ` set (users (db s))"
      "\<not> has_voted_in (db s) u (o_poll_id target)" by auto
    ultimately show "u \<in> u_id ` set (users (db s1)) \<and> \<not> has_voted_in (db s1) u (o_poll_id target)"
      using d1 by (simp add: has_voted_in_insert_vote)
  qed
  from Cons.IH [OF 1 2 3 4 mid]
  obtain s' after where "cast_votes vote calls s1 = Some s'"
    "get_poll_with_votes (o_poll_id target) (db s') = Inr after"
    "pr_options after = map (bump (o_id target) (int (length calls))) (pr_options mid)" by blast
  then show ?case
    using cv call midopts by (simp add: bump_bump comp_def add.commute)
qed

lemma no_duplicate_votes_insert_vote:
  assumes "no_duplicate_votes d"
    and "find (\<lambda>opt. o_id opt = option_id) (poll_options d) = Some poll_option"
    and "poll_of d poll_option = Some p"
    and "\<not> list_ex (\<lambda>ev. v_poll_option_id ev \<in> set (map o_id (options d p)))
                 (filter (\<lambda>v. v_user_id v = user_id) (votes d))"
  shows "no_duplicate_votes (insert_vote user_id (o_id poll_option) now d)"
proof -
  have "poll_option \<in> set (poll_options d)" using assms(2) by (auto simp add: find_Some_iff)
  moreover have "p_id p = o_poll_id poll_option"
    using assms(3) by (auto simp add: poll_of_def find_Some_iff)
  ultimately have "o_id poll_option \<in> set (map o_id (options d p))"
    by (auto simp add: options_def)
  with assms(4) have "\<forall>v\<in>set (votes d). v_user_id v = user_id \<longrightarrow>
      v_poll_option_id v \<noteq> o_id poll_option"
    by (auto simp add: list_ex_iff)
  then have "(user_id, o_id poll_option) \<notin> (\<lambda>v. (v_user_id v, v_poll_option_id v)) ` set (votes d)"
    by (auto simp add: image_iff)
  with assms(1) show ?thesis
    by (simp add: no_duplicate_votes_def insert_vote_def)
qed

lemma step_no_duplicate_votes:
  assumes "no_duplicate_votes (db s)"
  shows "no_duplicate_votes (db (step op s))"
proof (cases op)
  case (CastVote vote user_id e)
  from cast_vote_db [of vote user_id e s] assms have "no_duplicate_votes (db (snd (cast_vote vote user_id e s)))"
    by (auto simp add: no_duplicate_votes_insert_vote)
  with CastVote show ?thesis by simp
next
  case (CreatePoll pc creator_id now now')
  with create_poll_db [of pc creator_id now now' "db s"] assms show ?thesis
    by (auto simp add: no_duplicate_votes_def)
next
  case (CreateUser usr h now)
  with create_user_db [of usr h now "db s"] assms show ?thesis
    by (auto simp add: no_duplicate_votes_def)
next
  case (BuildSnapshot poll_id)
  with assms show ?thesis by (simp split: sum.splits)
qed (use assms in simp_all)

lemma run_no_duplicate_votes:
  assumes "no_duplicate_votes (db s)"
  shows "no_duplicate_votes (db (run ops s))"
  using assms unfolding run_def
  by (induction ops arbitrary: s) (simp_all add: step_no_duplicate_votes)

section \<open>Creation order\<close>

lemma scan_of_table:
  assumes "scans_in_insertion_order d"
  shows "sort_key (scan_rank d) (filter P (poll_options d)) = filter P (poll_options d)"
  using assms unfolding scans_in_insertion_order_def
  by (intro sort_key_id_if_sorted sorted_filter)

lemma ids_add_option:
  assumes "ids_ascending d" and "\<forall>opt\<in>set (poll_options d). o_id opt < poll_options_seq d"
    and "o_id new = poll_options_seq d"
  shows "ids_ascending (d\<lparr>poll_options := poll_options d @ [new], poll_options_seq := poll_options_seq d + 1\<rparr>)
       \<and> (\<forall>opt\<in>set (poll_options d @ [new]). o_id opt < poll_options_seq d + 1)"
  using assms by (auto simp add: ids_ascending_def sorted_wrt_append)

lemma ids_add_options:
  assumes "ids_ascending d" and "\<forall>opt\<in>set (poll_options d). o_id opt < poll_options_seq d"
  shows "ids_ascending (add_options xs poll_id now d)
       \<and> (\<forall>opt\<in>set (poll_options (add_options xs poll_id now d)).
             o_id opt < poll_options_seq (add_options xs poll_id now d))"
  using assms
proof (induction xs arbitrary: d)
  case Nil
  then show ?case by simp
next
  case (Cons x xs)
  let ?opt = "\<lparr>o_id = poll_options_seq d, o_text = poc_text x, o_poll_id = poll_id, o_created_at = now\<rparr>"
  let ?d = "d\<lparr>poll_options := poll_options d @ [?opt], poll_options_seq := poll_options_seq d + 1\<rparr>"
  from ids_add_option [OF Cons.prems, of ?opt] have "ids_ascending ?d"
    and "\<forall>opt\<in>set (poll_options ?d). o_id opt < poll_options_seq ?d" by simp_all
  from Cons.IH [OF this] show ?case by simp
qed

lemma step_ids:
  assumes "ids_ascending (db s)" and "\<forall>opt\<in>set (poll_options (db s)). o_id opt < poll_options_seq (db s)"
  shows "ids_ascending (db (step op s))
       \<and> (\<forall>opt\<in>set (poll_options (db (step op s))). o_id opt < poll_options_seq (db (step op s)))"
proof (cases op)
  case (CastVote vote user_id e)
  from cast_vote_db [of vote user_id e s]
  have "poll_options (db (snd (cast_vote vote user_id e s))) = poll_options (db s)
      \<and> poll_options_seq (db (snd (cast_vote vote user_id e s))) = poll_options_seq (db s)"
    by (auto simp add: insert_vote_def)
  with CastVote assms show ?thesis by (simp add: ids_ascending_def)
next
  case (CreatePoll pc creator_id now now')
  let ?d = "db s\<lparr>polls := polls (db s) @ [\<lparr>p_id = polls_seq (db s), p_question = pc_question pc,
                                p_is_published = pc_is_published pc, p_created_at = now,
                                p_updated_at = now, p_creator_id = creator_id\<rparr>],
          polls_seq := polls_seq (db s) + 1\<rparr>"
  have "ids_ascending ?d" and "\<forall>opt\<in>set (poll_options ?d). o_id opt < poll_options_seq ?d"
    using assms by (simp_all add: ids_ascending_def)
  from ids_add_options [OF this, of "pc_options pc" "polls_seq (db s)" now']
    create_poll_db [of pc creator_id now now' "db s"] CreatePoll assms
  show ?thesis by auto
next
  case (CreateUser usr h now)
  with create_user_db [of usr h now "db s"] assms show ?thesis
    by (auto simp add: ids_ascending_def)
next
  case (BuildSnapshot poll_id)
  with assms show ?thesis by (simp split: sum.splits)
qed (use assms in simp_all)

lemma run_ids:
  assumes "wf (db s)" and "ids_ascending (db s)"
  shows "ids_ascending (db (run ops s))"
proof -
  have "\<forall>opt\<in>set (poll_options (db s)). o_id opt < poll_options_seq (db s)"
    using assms(1) by (simp add: wf_def)
  with assms(2) have "ids_ascending (db (fold step ops s))
       \<and> (\<forall>opt\<in>set (poll_options (db (fold step ops s))). o_id opt < poll_options_seq (db (fold step ops s)))"
  proof (induction ops arbitrary: s)
    case Nil
    then show ?case by simp
  next
    case (Cons op ops)
    from step_ids [OF Cons.prems, of op] Cons.IH [of "step op s"] show ?case by simp
  qed
  then show ?thesis by (simp add: run_def)
qed

lemma snapshot_ids_ascending:
  assumes "scans_in_insertion_order d" and "ids_ascending d"
    and "get_poll_with_votes poll_id (d\<lparr>votes := vs\<rparr>) = Inr snapshot"
  shows "sorted_wrt (<) (map por_id (pr_options snapshot))"
proof -
  have "scans_in_insertion_order (d\<lparr>votes := vs\<rparr>)"
    using assms(1) by (simp add: scans_in_insertion_order_def)
  from scan_of_table [OF this] get_poll_with_votes_options [OF assms(3)]
  have "map por_id (pr_options snapshot) =
          map o_id (filter (\<lambda>opt. o_poll_id opt = poll_id) (poll_options d))"
    by (simp add: comp_def)
  moreover have "sorted_wrt (<) (map o_id (filter (\<lambda>opt. o_poll_id opt = poll_id) (poll_options d)))"
    using assms(2) unfolding ids_ascending_def sorted_wrt_map by (rule sorted_wrt_filter)
  ultimately show ?thesis by simp
qed

section \<open>Claims about casting a vote\<close>

text \<open>
  C1, as the spec states it: a second \<open>cast_vote\<close> of a user for the option the user
  already voted for succeeds as a no-op. On the code it does not. The first vote
  below is accepted and stored; the same request sent again is rejected with status 400,
  since the loop over \<open>existing_votes\<close> raises for every vote in the poll, the one for
  the same option included.
\<close>

theorem revote_same_option_counterexample:
  "fst (cast_vote demo_vote 1 demo_env demo_system) =
     Inr \<lparr>vr_user_id = 1, vr_poll_option_id = 1, vr_created_at = 105\<rparr>
   \<and> votes (db (snd (cast_vote demo_vote 1 demo_env demo_system))) =
       [\<lparr>v_id = 1, v_user_id = 1, v_poll_option_id = 1, v_created_at = 100\<rparr>]
   \<and> fst (cast_vote demo_vote 1 demo_env (snd (cast_vote demo_vote 1 demo_env demo_system))) =
       Inl (HTTPException 400 ''User has already voted for this poll'')"
  by (simp add: eval_defs demo_defs)

text \<open>
  C1, amended: when the user already holds a stored vote for the option, \<open>cast_vote\<close>
  for that user and that option is rejected with status 400 (the spec's
  \<open>DuplicateVote\<close>), and the whole system is as before: no vote record is added, no
  count changes and nothing is sent to any observer.
\<close>

theorem revote_same_option_rejected:
  assumes "find (\<lambda>u. u_id u = user_id) (users (db s)) = Some usr"
    and "find (\<lambda>opt. o_id opt = vc_poll_option_id vote) (poll_options (db s)) = Some poll_option"
    and "poll_of (db s) poll_option = Some p"
    and "v \<in> set (votes (db s))" and "v_user_id v = user_id"
    and "v_poll_option_id v = vc_poll_option_id vote"
  shows "cast_vote vote user_id e s =
           (Inl (HTTPException 400 ''User has already voted for this poll''), s)"
proof -
  have "poll_option \<in> set (poll_options (db s))" and "o_id poll_option = vc_poll_option_id vote"
    using assms(2) by (auto simp add: find_Some_iff)
  moreover have "p_id p = o_poll_id poll_option"
    using assms(3) by (auto simp add: poll_of_def find_Some_iff)
  ultimately have "v_poll_option_id v \<in> o_id ` set (options (db s) p)"
    using assms(6) by (auto simp add: options_def intro!: image_eqI [where x = poll_option])
  then show ?thesis by (rule cast_vote_duplicate [OF assms(1-5)])
qed

theorem revote_same_option_rejected_witness:
  "cast_vote demo_vote 1 demo_env voted_system =
     (Inl (HTTPException 400 ''User has already voted for this poll''), voted_system)"
proof -
  let ?alice = "\<lparr>u_id = 1, u_name = ''alice'', u_email = ''a@x.org'',
                 u_password_hash = ''h1'', u_created_at = 10\<rparr>"
  let ?python = "\<lparr>o_id = 1, o_text = ''Python'', o_poll_id = 1, o_created_at = 21\<rparr>"
  let ?p = "\<lparr>p_id = 1, p_question = ''Language?'', p_is_published = True,
                 p_created_at = 20, p_updated_at = 20, p_creator_id = 1\<rparr>"
  let ?v = "\<lparr>v_id = 1, v_user_id = 1, v_poll_option_id = 1, v_created_at = 100\<rparr>"
  have 1: "find (\<lambda>u. u_id u = 1) (users (db voted_system)) = Some ?alice"
    by (simp add: demo_defs)
  have 2: "find (\<lambda>opt. o_id opt = vc_poll_option_id demo_vote) (poll_options (db voted_system)) = Some ?python"
    by (simp add: demo_defs)
  have 3: "poll_of (db voted_system) ?python = Some ?p"
    by (simp add: demo_defs poll_of_def)
  have 4: "?v \<in> set (votes (db voted_system))" by (simp add: demo_defs)
  have 5: "v_user_id ?v = 1" by simp
  have 6: "v_poll_option_id ?v = vc_poll_option_id demo_vote" by (simp add: demo_defs)
  show ?thesis by (rule revote_same_option_rejected [OF 1 2 3 4 5 6])
qed

text \<open>
  C3: when the user already holds a vote for another option of the same poll,
  \<open>cast_vote\<close> fails with status 400 (\<open>DuplicateVote\<close>) and the state it returns is
  the state it was given.
\<close>

theorem vote_for_other_option_rejected:
  assumes "find (\<lambda>u. u_id u = user_id) (users (db s)) = Some usr"
    and "find (\<lambda>opt. o_id opt = vc_poll_option_id vote) (poll_options (db s)) = Some poll_option"
    and "poll_of (db s) poll_option = Some p"
    and "v \<in> set (votes (db s))" and "v_user_id v = user_id"
    and "other \<in> set (options (db s) p)" and "v_poll_option_id v = o_id other"
    and "o_id other \<noteq> o_id poll_option"
  shows "cast_vote vote user_id e s =
           (Inl (HTTPException 400 ''User has already voted for this poll''), s)"
  using assms(6,7) by (intro cast_vote_duplicate [OF assms(1-5)]) simp

theorem vote_for_other_option_rejected_witness:
  "cast_vote other_vote 1 demo_env voted_system =
     (Inl (HTTPException 400 ''User has already voted for this poll''), voted_system)"
proof -
  let ?alice = "\<lparr>u_id = 1, u_name = ''alice'', u_email = ''a@x.org'',
                 u_password_hash = ''h1'', u_created_at = 10\<rparr>"
  let ?go = "\<lparr>o_id = 2, o_text = ''Go'', o_poll_id = 1, o_created_at = 21\<rparr>"
  let ?python = "\<lparr>o_id = 1, o_text = ''Python'', o_poll_id = 1, o_created_at = 21\<rparr>"
  let ?p = "\<lparr>p_id = 1, p_question = ''Language?'', p_is_published = True,
                 p_created_at = 20, p_updated_at = 20, p_creator_id = 1\<rparr>"
  let ?v = "\<lparr>v_id = 1, v_user_id = 1, v_poll_option_id = 1, v_created_at = 100\<rparr>"
  have 1: "find (\<lambda>u. u_id u = 1) (users (db voted_system)) = Some ?alice"
    by (simp add: demo_defs)
  have 2: "find (\<lambda>opt. o_id opt = vc_poll_option_id other_vote) (poll_options (db voted_system)) = Some ?go"
    by (simp add: demo_defs other_vote_def)
  have 3: "poll_of (db voted_system) ?go = Some ?p"
    by (simp add: demo_defs poll_of_def)
  have 4: "?v \<in> set (votes (db voted_system))" by (simp add: demo_defs)
  have 5: "v_user_id ?v = 1" by simp
  have 6: "?python \<in> set (options (db voted_system) ?p)" by (simp add: demo_defs options_def)
  have 7: "v_poll_option_id ?v = o_id ?python" by simp
  have 8: "o_id ?python \<noteq> o_id ?go" by simp
  show ?thesis by (rule vote_for_other_option_rejected [OF 1 2 3 4 5 6 7 8])
qed

text \<open>
  C7, as the spec states it: a successful \<open>cast_vote\<close> that inserts a vote advances
  the \<open>updated_at\<close> of the poll. On the code it does not: the vote below is stored at
  database time 100, and the poll's \<open>updated_at\<close> is 20 before and after.
\<close>

theorem vote_advances_updated_at_counterexample:
  "fst (cast_vote demo_vote 1 demo_env demo_system) =
      Inr \<lparr>vr_user_id = 1, vr_poll_option_id = 1, vr_created_at = 105\<rparr>
   \<and> votes (db demo_system) = []
   \<and> votes (db (snd (cast_vote demo_vote 1 demo_env demo_system))) =
       [\<lparr>v_id = 1, v_user_id = 1, v_poll_option_id = 1, v_created_at = 100\<rparr>]
   \<and> map p_updated_at (polls (db demo_system)) = [20]
   \<and> map p_updated_at (polls (db (snd (cast_vote demo_vote 1 demo_env demo_system)))) = [20]"
  by (simp add: eval_defs demo_defs)

text \<open>
  C7, amended: a successful \<open>cast_vote\<close> leaves the table of polls as it was, so the
  \<open>updated_at\<close> of every poll is unchanged.
\<close>

theorem vote_keeps_updated_at:
  assumes "cast_vote vote user_id e s = (Inr response, s')"
  shows "polls (db s') = polls (db s)"
  using cast_vote_polls [of vote user_id e s] assms by simp

theorem vote_keeps_updated_at_witness:
  "fst (cast_vote demo_vote 1 demo_env demo_system) =
      Inr \<lparr>vr_user_id = 1, vr_poll_option_id = 1, vr_created_at = 105\<rparr>
   \<and> polls (db (snd (cast_vote demo_vote 1 demo_env demo_system))) = polls (db demo_system)"
proof -
  obtain s' where h: "cast_vote demo_vote 1 demo_env demo_system =
      (Inr \<lparr>vr_user_id = 1, vr_poll_option_id = 1, vr_created_at = 105\<rparr>, s')"
    by (simp add: eval_defs demo_defs)
  show ?thesis using h vote_keeps_updated_at [OF h] by simp
qed

text \<open>
  C9, as the spec states it: the value returned by a successful \<open>cast_vote\<close> carries
  the stored vote's timestamp and the id of the poll. The record \<open>VoteResponse\<close> has no
  field for a poll id, and its \<open>created_at\<close> is the application clock read when the
  response is built: below the vote is stored with timestamp 100 and the response says 105.
\<close>

theorem vote_response_counterexample:
  "fst (cast_vote demo_vote 1 demo_env demo_system) =
      Inr \<lparr>vr_user_id = 1, vr_poll_option_id = 1, vr_created_at = 105\<rparr>
   \<and> votes (db (snd (cast_vote demo_vote 1 demo_env demo_system))) =
       [\<lparr>v_id = 1, v_user_id = 1, v_poll_option_id = 1, v_created_at = 100\<rparr>]"
  by (simp add: eval_defs demo_defs)

text \<open>
  C9, amended: the value returned by a successful \<open>cast_vote\<close> consists of the user id,
  the option id of the request and the reading of the application clock at the time the
  response is built; it holds no poll id.
\<close>

theorem vote_response_fields:
  assumes "cast_vote vote user_id e s = (Inr response, s')"
  shows "response = \<lparr>vr_user_id = user_id, vr_poll_option_id = vc_poll_option_id vote,
                     vr_created_at = now_utc e\<rparr>"
  using assms by (rule cast_vote_response)

theorem vote_response_fields_witness:
  "fst (cast_vote demo_vote 1 demo_env demo_system) =
     Inr \<lparr>vr_user_id = 1, vr_poll_option_id = vc_poll_option_id demo_vote,
          vr_created_at = now_utc demo_env\<rparr>"
proof -
  obtain r s' where h: "cast_vote demo_vote 1 demo_env demo_system = (Inr r, s')"
    by (simp add: eval_defs demo_defs)
  show ?thesis using h vote_response_fields [OF h] by simp
qed

text \<open>
  C10: a \<open>cast_vote\<close> that fails, for whatever reason, leaves the wire, the registry
  and the store as they were: no observer is sent anything.
\<close>

theorem failed_vote_no_broadcast:
  assumes "cast_vote vote user_id e s = (Inl err, s')"
  shows "wire s' = wire s \<and> manager s' = manager s \<and> db s' = db s"
  using cast_vote_Inl_unchanged [OF assms] by simp

theorem failed_vote_no_broadcast_witness:
  "fst (cast_vote demo_vote 3 demo_env demo_system) = Inl (HTTPException 404 ''User not found'')
   \<and> wire (snd (cast_vote demo_vote 3 demo_env demo_system)) = wire demo_system
   \<and> manager (snd (cast_vote demo_vote 3 demo_env demo_system)) = manager demo_system
   \<and> db (snd (cast_vote demo_vote 3 demo_env demo_system)) = db demo_system"
proof -
  obtain s' where h: "cast_vote demo_vote 3 demo_env demo_system =
                        (Inl (HTTPException 404 ''User not found''), s')"
    by (simp add: eval_defs demo_defs)
  show ?thesis using h failed_vote_no_broadcast [OF h] by simp
qed

section \<open>Claims about the broadcast\<close>


section \<open>Claims about reachable states\<close>

text \<open>
  C2: from a store that meets the schema's constraints and I1, every sequence of
  operations (votes, new polls, new users, snapshots, subscriptions, connections and
  disconnections) leads to a store that meets I1: no user holds votes for two options of
  one poll.
\<close>

theorem I1_preserved:
  assumes "wf (db s)" and "I1 (db s)"
  shows "I1 (db (run ops s))"
  using run_wf_I1 [OF assms] by simp

theorem I1_preserved_witness:
  "wf (db demo_system) \<and> I1 (db demo_system) \<and> I1 (db (run demo_ops demo_system))"
proof -
  have 1: "wf (db demo_system)" by (simp add: wf_def demo_defs)
  have 2: "I1 (db demo_system)" by (simp add: I1_def voted_options_def demo_defs)
  show ?thesis using 1 2 I1_preserved [OF 1 2, of demo_ops] by simp
qed

text \<open>
  C8, as the spec states it: no subscription for a poll id without a poll ever enters the
  registry. On the code it does: \<open>subscribe_to_poll\<close> does not look at the store, and
  \<open>websocket_endpoint\<close> calls it before it loads the poll. With no poll 7 in the store,
  the first two statements of the handler leave websocket 0 subscribed to poll 7; the
  handler then disconnects the websocket, and the key 7 stays in the registry with an
  empty list.
\<close>

theorem subscribe_unknown_poll_counterexample:
  "get_poll_with_votes 7 (db init_system) = Inl (HTTPException 404 ''Poll not found'')
   \<and> subscribers (subscribe_to_poll 7 0 (connect 0 (manager init_system))) 7 = Some [0]
   \<and> poll_subscribers (manager (websocket_endpoint 0 7 demo_env init_system)) = [(7, [])]"
  by (simp add: demo_defs get_poll_with_votes_def subscribers_def subscribe_to_poll_def connect_def
      websocket_endpoint_def disconnect_def remove_if_in_def Let_def)

text \<open>
  C8, amended: in every state reached through the request handlers (where
  \<open>subscribe_to_poll\<close> is only called inside \<open>websocket_endpoint\<close>), every observer in a
  subscriber list of the registry is subscribed to a poll id that has a poll in the store.
\<close>

theorem subscriptions_refer_to_polls:
  assumes "subscriptions_valid s" and "list_all is_handler ops"
  shows "subscriptions_valid (run ops s)"
  using assms by (rule run_valid)

theorem subscriptions_refer_to_polls_witness:
  "subscriptions_valid demo_system \<and> list_all is_handler demo_ops
   \<and> subscriptions_valid (run demo_ops demo_system)"
proof -
  have 1: "subscriptions_valid demo_system"
    by (simp add: subscriptions_valid_def demo_defs)
  have 2: "list_all is_handler demo_ops"
    by (simp add: demo_ops_def is_handler_def)
  show ?thesis using 1 2 subscriptions_refer_to_polls [OF 1 2] by simp
qed

section \<open>Claims about the snapshot\<close>

text \<open>
  C5: in a store that meets the schema's constraints and holds no vote row twice, the
  snapshot of a poll reports for each of its options the number of distinct users that hold
  a stored vote for it. And when users that exist, are pairwise different and have not voted
  in the poll of an option vote for that option one after the other, every vote is
  accepted, and the snapshot taken afterwards is the one taken before with the count of
  that option raised by the number of voters and every other entry as it was.
\<close>

theorem snapshot_counts_distinct_voters:
  assumes "wf (db s)" and "no_duplicate_votes (db s)"
  shows "(get_poll_with_votes poll_id (db s) = Inr snapshot \<longrightarrow>
            pr_options snapshot =
              map (\<lambda>opt. \<lparr>por_id = o_id opt, por_text = o_text opt,
                           por_vote_count = int (card (distinct_voters (db s) (o_id opt)))\<rparr>)
                  (sort_key (scan_rank (db s))
                     (filter (\<lambda>opt. o_poll_id opt = poll_id) (poll_options (db s)))))
       \<and> (find (\<lambda>opt. o_id opt = vc_poll_option_id vote) (poll_options (db s)) = Some target \<and>
          distinct (map fst calls) \<and>
          (\<forall>(user_id, e)\<in>set calls. user_id \<in> u_id ` set (users (db s)) \<and>
                                      \<not> has_voted_in (db s) user_id (o_poll_id target)) \<and>
          get_poll_with_votes (o_poll_id target) (db s) = Inr before \<longrightarrow>
            (\<exists>s' after. cast_votes vote calls s = Some s' \<and>
               get_poll_with_votes (o_poll_id target) (db s') = Inr after \<and>
               pr_options after =
                 map (bump (o_id target) (int (length calls))) (pr_options before)))"
proof -
  have "distinct (map u_id (users (db s)))" using assms(1) by (simp add: wf_def)
  then show ?thesis
    using snapshot_counts [OF assms, of poll_id snapshot]
      cast_votes_counts [of s vote target calls before]
    by blast
qed

theorem snapshot_counts_distinct_voters_witness:
  "wf (db demo_system) \<and> no_duplicate_votes (db demo_system)
   \<and> map por_vote_count (pr_options (projr (get_poll_with_votes 1 (db demo_system)))) = [0, 0]
   \<and> map por_vote_count
       (pr_options (projr (get_poll_with_votes 1 (db (the (cast_votes demo_vote demo_calls demo_system))))))
     = [2, 0]"
proof -
  let ?python = "\<lparr>o_id = 1, o_text = ''Python'', o_poll_id = 1, o_created_at = 21\<rparr>"
  have 1: "wf (db demo_system)" by (simp add: wf_def demo_defs)
  have 2: "no_duplicate_votes (db demo_system)" by (simp add: no_duplicate_votes_def demo_defs)
  obtain before where 3: "get_poll_with_votes 1 (db demo_system) = Inr before"
    and 4: "map por_vote_count (pr_options before) = [0, 0]" and 5: "map por_id (pr_options before) = [1, 2]"
    by (simp add: get_poll_with_votes_def options_def voters_def demo_defs)
  have 6: "find (\<lambda>opt. o_id opt = vc_poll_option_id demo_vote) (poll_options (db demo_system)) = Some ?python"
    by (simp add: demo_defs)
  have 7: "distinct (map fst demo_calls)" by (simp add: demo_calls_def)
  have 8: "\<forall>(user_id, e)\<in>set demo_calls. user_id \<in> u_id ` set (users (db demo_system)) \<and>
             \<not> has_voted_in (db demo_system) user_id (o_poll_id ?python)"
    by (simp add: demo_calls_def has_voted_in_def demo_defs)
  from snapshot_counts_distinct_voters [OF 1 2, of 1 before demo_vote ?python demo_calls before] 3 6 7 8
  obtain s' after where 9: "cast_votes demo_vote demo_calls demo_system = Some s'"
    and 10: "get_poll_with_votes 1 (db s') = Inr after"
    and 11: "pr_options after = map (bump 1 (int (length demo_calls))) (pr_options before)"
    by auto
  have "map por_vote_count (pr_options after) = [2, 0]"
    using 4 5 unfolding 11 by (auto simp add: bump_def demo_calls_def)
  with 1 2 3 4 9 10 show ?thesis by simp
qed

text \<open>
  C6, as the spec states it: the snapshot lists the options of a poll in the order of their
  creation, in every state of the store. \<open>Poll.options\<close> is declared without
  \<open>order_by\<close> and \<open>get_poll_with_votes\<close> does not sort, so the snapshot has the order
  in which the backend yields the rows. On a backend that scans from the newest row, the
  options with ids 1 and 2 are listed as 2, 1, and the options that \<open>create_poll\<close> has
  just created as vi, emacs, ed come back as ed, emacs, vi.
\<close>

theorem snapshot_creation_order_counterexample:
  "wf reversed_db
   \<and> map o_id (poll_options reversed_db) = [1, 2]
   \<and> map por_id (pr_options (projr (get_poll_with_votes 1 reversed_db))) = [2, 1]
   \<and> map poc_text (pc_options demo_poll) = [''vi'', ''emacs'', ''ed'']
   \<and> map por_text (pr_options (projr (fst (create_poll demo_poll 1 40 41 reversed_db)))) =
       [''ed'', ''emacs'', ''vi'']"
  by (simp add: wf_def get_poll_with_votes_def create_poll_def options_def demo_defs
      demo_poll_def Let_def)

text \<open>
  C6, amended: the snapshot lists the options of the poll in exactly the order in which the
  store yields the rows of \<open>Poll.options\<close>, whatever the table of votes holds. When the
  backend yields rows in the order of insertion, this is the order of the rows in the
  table; the ids of the rows ascend in that order in every state that a run of operations
  reaches, and no operation moves or removes a row, so it is then the order of creation,
  with ascending ids.
\<close>

theorem snapshot_in_scan_order:
  assumes "get_poll_with_votes poll_id (d\<lparr>votes := vs\<rparr>) = Inr snapshot"
  shows "map por_id (pr_options snapshot) =
           map o_id (sort_key (scan_rank d) (filter (\<lambda>opt. o_poll_id opt = poll_id) (poll_options d)))
       \<and> map por_text (pr_options snapshot) =
           map o_text (sort_key (scan_rank d) (filter (\<lambda>opt. o_poll_id opt = poll_id) (poll_options d)))
       \<and> (scans_in_insertion_order d \<longrightarrow>
            map por_id (pr_options snapshot) =
              map o_id (filter (\<lambda>opt. o_poll_id opt = poll_id) (poll_options d)))
       \<and> (scans_in_insertion_order d \<and> ids_ascending d \<longrightarrow>
            sorted_wrt (<) (map por_id (pr_options snapshot)))
       \<and> (wf (db s) \<and> ids_ascending (db s) \<longrightarrow> ids_ascending (db (run ops s)))
       \<and> (\<exists>new. poll_options (db (run ops s)) = poll_options (db s) @ new)"
proof -
  have 1: "map por_id (pr_options snapshot) =
           map o_id (sort_key (scan_rank d) (filter (\<lambda>opt. o_poll_id opt = poll_id) (poll_options d)))"
    and 2: "map por_text (pr_options snapshot) =
           map o_text (sort_key (scan_rank d) (filter (\<lambda>opt. o_poll_id opt = poll_id) (poll_options d)))"
    using get_poll_with_votes_options [OF assms] by (simp_all add: comp_def)
  have 3: "scans_in_insertion_order d \<longrightarrow>
            map por_id (pr_options snapshot) =
              map o_id (filter (\<lambda>opt. o_poll_id opt = poll_id) (poll_options d))"
    using 1 by (simp add: scan_of_table)
  have 4: "scans_in_insertion_order d \<and> ids_ascending d \<longrightarrow>
            sorted_wrt (<) (map por_id (pr_options snapshot))"
    using snapshot_ids_ascending [OF _ _ assms] by blast
  have 5: "wf (db s) \<and> ids_ascending (db s) \<longrightarrow> ids_ascending (db (run ops s))"
    using run_ids [of s ops] by blast
  from 1 2 3 4 5 run_appends_options [of ops s] show ?thesis by blast
qed

theorem snapshot_in_scan_order_witness:
  "scans_in_insertion_order demo_db \<and> ids_ascending demo_db
   \<and> map por_id (pr_options (projr (get_poll_with_votes 1 (demo_db\<lparr>votes := stray_votes\<rparr>)))) = [1, 2]
   \<and> map por_vote_count (pr_options (projr (get_poll_with_votes 1 (demo_db\<lparr>votes := stray_votes\<rparr>)))) = [0, 2]
   \<and> sorted_wrt (<) (map por_id (pr_options (projr (get_poll_with_votes 1 (demo_db\<lparr>votes := stray_votes\<rparr>)))))"
proof -
  obtain snapshot where 1: "get_poll_with_votes 1 (demo_db\<lparr>votes := stray_votes\<rparr>) = Inr snapshot"
    by (simp add: get_poll_with_votes_def demo_defs)
  have 2: "scans_in_insertion_order demo_db"
    by (simp add: scans_in_insertion_order_def demo_defs)
  have 3: "ids_ascending demo_db" by (simp add: ids_ascending_def demo_defs)
  have 4: "map por_vote_count (pr_options snapshot) = [0, 2]"
    using 1 by (auto simp add: get_poll_with_votes_def options_def voters_def demo_defs stray_votes_def)
  have 5: "filter (\<lambda>opt. o_poll_id opt = 1) (poll_options demo_db) = poll_options demo_db"
    by (simp add: demo_defs)
  from snapshot_in_scan_order [OF 1, of demo_system "[]"] 1 2 3 4 5
  show ?thesis by (simp add: demo_defs)
qed

end
